theory Spec2Isabelle
  imports Complex_Main
begin

section \<open>The fact pipeline of the fun-fact app\<close>

text \<open>
  The repository holds three versions of the same screen component:
  \<^item> \<^verbatim>\<open>src/App.js\<close>: the rate-limited version (fixed doubling delays, at most three
    fetch attempts, lowercased facts, a sliding window over the taps);
  \<^item> \<^verbatim>\<open>src/unnamed/part_001\<close>: the same pipeline without the rate limiter;
  \<^item> \<^verbatim>\<open>src/unnamed/part_000\<close>: the version with the tuning constants
    \<^verbatim>\<open>MAX_RETRIES\<close>, \<^verbatim>\<open>BASE_DELAY_MS\<close> and \<^verbatim>\<open>JITTER\<close>.
  The definitions without suffix follow \<^verbatim>\<open>src/App.js\<close>; the definitions with the suffix
  \<open>_jitter\<close> follow \<^verbatim>\<open>src/unnamed/part_000\<close>.

  JavaScript numbers are read as reals (the delays and the values of \<^verbatim>\<open>Math.random()\<close>)
  or as integers (the timestamps of \<^verbatim>\<open>Date.now()\<close>). Strings are lists of bytes, and
  \<^verbatim>\<open>toLowerCase\<close> is modelled on the ASCII letters.
\<close>

subsection \<open>Values, the network and the environment\<close>

text \<open>What \<^verbatim>\<open>res.json()\<close> can resolve to.\<close>

datatype jsval =
    JUndefined
  | JNull
  | JBool bool
  | JNum real
  | JStr string
  | JArr "jsval list"
  | JObj "(string \<times> jsval) list"

text \<open>
  The outcome of one call \<^verbatim>\<open>fetch(url)\<close>: the promise rejects, or it resolves to a
  response with its \<^verbatim>\<open>ok\<close> flag and its body (\<open>None\<close> when the body is not JSON, so
  that \<^verbatim>\<open>res.json()\<close> rejects).
\<close>

datatype http_result =
    Rejected
  | Response bool "jsval option"

datatype error = NetworkError | HttpError | ParseError | BadData | TypeError

text \<open>
  The world outside the component: the answer of the network to the k-th request, the
  k-th value of \<^verbatim>\<open>Math.random()\<close>, how many of each have been used, and the arguments of
  the calls of \<^verbatim>\<open>sleep\<close> so far, oldest first.
\<close>

record env =
  net :: "nat \<Rightarrow> http_result"
  fetched :: nat
  rand :: "nat \<Rightarrow> real"
  drawn :: nat
  slept :: "real list"

definition sleep :: "real \<Rightarrow> env \<Rightarrow> env" where
  "sleep ms e = e\<lparr>slept := slept e @ [ms]\<rparr>"

definition random :: "env \<Rightarrow> real \<times> env" where
  "random e = (rand e (drawn e), e\<lparr>drawn := Suc (drawn e)\<rparr>)"

text \<open>An ASCII capital (code 65 to 90) becomes its small letter, 32 higher: the bit of
  weight 32, clear in a capital, is set. Every other byte stays.\<close>

fun lowerChar :: "char \<Rightarrow> char" where
  "lowerChar (Char b0 b1 b2 b3 b4 b5 b6 b7) =
     (let n = (of_char (Char b0 b1 b2 b3 b4 b5 b6 b7) :: nat) in
      if 65 \<le> n \<and> n \<le> 90 then Char b0 b1 b2 b3 b4 True b6 b7
      else Char b0 b1 b2 b3 b4 b5 b6 b7)"

definition toLowerCase :: "string \<Rightarrow> string" where
  "toLowerCase s = map lowerChar s"

text \<open>\<^verbatim>\<open>!v\<close> is false exactly on the truthy values.\<close>

fun truthy :: "jsval \<Rightarrow> bool" where
  "truthy JUndefined = False"
| "truthy JNull = False"
| "truthy (JBool b) = b"
| "truthy (JNum x) = (x \<noteq> 0)"
| "truthy (JStr s) = (s \<noteq> [])"
| "truthy (JArr vs) = True"
| "truthy (JObj kvs) = True"

text \<open>\<^verbatim>\<open>(d) => d?.text\<close>: only an object can have the property.\<close>

fun toText :: "jsval \<Rightarrow> jsval" where
  "toText (JObj kvs) = (case map_of kvs ''text'' of Some v \<Rightarrow> v | None \<Rightarrow> JUndefined)"
| "toText d = JUndefined"

text \<open>\<^verbatim>\<open>fetchJson\<close>: one request; a rejected fetch, a status that is not ok and a body
  that does not parse are thrown.\<close>

definition fetchJson :: "env \<Rightarrow> (error + jsval) \<times> env" where
  "fetchJson e =
     (let e1 = e\<lparr>fetched := Suc (fetched e)\<rparr> in
      case net e (fetched e) of
        Rejected \<Rightarrow> (Inl NetworkError, e1)
      | Response ok body \<Rightarrow>
          if \<not> ok then (Inl HttpError, e1)
          else (case body of None \<Rightarrow> (Inl ParseError, e1) | Some d \<Rightarrow> (Inr d, e1)))"

text \<open>
  The fact a response carries: the \<^verbatim>\<open>text\<close> field of the JSON body of an ok response,
  when it is a non-empty string. An attempt of either \<^verbatim>\<open>fetchWithRetry\<close> fails exactly
  on the responses where this is \<open>None\<close> (\<open>tryFetch_fails\<close>, \<open>tryFetch_succeeds\<close> below).
\<close>

fun textOf :: "http_result \<Rightarrow> string option" where
  "textOf Rejected = None"
| "textOf (Response ok None) = None"
| "textOf (Response ok (Some d)) =
     (if ok then (case toText d of JStr s \<Rightarrow> if s = [] then None else Some s | _ \<Rightarrow> None)
      else None)"

subsection \<open>\<^verbatim>\<open>fetchWithRetry\<close> of \<^verbatim>\<open>src/App.js\<close> (and of \<^verbatim>\<open>part_001\<close>)\<close>

text \<open>
  The body of the \<^verbatim>\<open>try\<close>: a falsy text throws \<^verbatim>\<open>bad data\<close>; a truthy text that is not
  a string has no method \<^verbatim>\<open>toLowerCase\<close>, so the call throws a TypeError.
\<close>

definition tryFetch :: "env \<Rightarrow> (error + string) \<times> env" where
  "tryFetch e =
     (case fetchJson e of
        (Inl err, e1) \<Rightarrow> (Inl err, e1)
      | (Inr d, e1) \<Rightarrow>
          (let t = toText d in
           if \<not> truthy t then (Inl BadData, e1)
           else (case t of JStr s \<Rightarrow> (Inr (toLowerCase s), e1) | _ \<Rightarrow> (Inl TypeError, e1))))"

function fetchWithRetry_loop :: "nat \<Rightarrow> real \<Rightarrow> env \<Rightarrow> string option \<times> env" where
  "fetchWithRetry_loop attempt delay e =
     (if attempt < 3 then
        (case tryFetch e of
           (Inr t, e1) \<Rightarrow> (Some t, e1)
         | (Inl err, e1) \<Rightarrow> fetchWithRetry_loop (attempt + 1) (delay * 2) (sleep delay e1))
      else (None, e))"
  by pat_completeness auto
termination
  by (relation "measure (\<lambda>(attempt, delay, e). 3 - attempt)") auto

definition fetchWithRetry :: "env \<Rightarrow> string option \<times> env" where
  "fetchWithRetry e = fetchWithRetry_loop 0 400 e"

subsection \<open>\<^verbatim>\<open>fetchWithRetry\<close> of \<^verbatim>\<open>part_000\<close>\<close>

definition MAX_RETRIES :: nat where "MAX_RETRIES = 3"
definition BASE_DELAY_MS :: real where "BASE_DELAY_MS = 400"
definition JITTER :: real where "JITTER = 0.25"

text \<open>The body of the \<^verbatim>\<open>try\<close>: the text is returned as it is.\<close>

definition tryFetch_jitter :: "env \<Rightarrow> (error + string) \<times> env" where
  "tryFetch_jitter e =
     (case fetchJson e of
        (Inl err, e1) \<Rightarrow> (Inl err, e1)
      | (Inr d, e1) \<Rightarrow>
          (case toText d of
             JStr s \<Rightarrow> if s = [] then (Inl BadData, e1) else (Inr s, e1)
           | _ \<Rightarrow> (Inl BadData, e1)))"

text \<open>The wait after the failed attempt \<open>attempt\<close>, from the random value \<open>r\<close>.\<close>

definition backoff :: "real \<Rightarrow> real \<Rightarrow> nat \<Rightarrow> real \<Rightarrow> real" where
  "backoff baseDelay jit attempt r =
     (let base = baseDelay * 2 ^ attempt;
          jitter = base * (r * 2 * jit - jit)
      in max 100 (base + jitter))"

text \<open>The loop, with the three tuning constants as parameters.\<close>

function retry_jitter :: "nat \<Rightarrow> real \<Rightarrow> real \<Rightarrow> nat \<Rightarrow> env \<Rightarrow> string option \<times> env" where
  "retry_jitter maxRetries baseDelay jit attempt e =
     (if attempt \<le> maxRetries then
        (case tryFetch_jitter e of
           (Inr t, e1) \<Rightarrow> (Some t, e1)
         | (Inl err, e1) \<Rightarrow>
             if attempt = maxRetries then (None, e1)
             else (case random e1 of
                     (r, e2) \<Rightarrow>
                       retry_jitter maxRetries baseDelay jit (attempt + 1)
                         (sleep (backoff baseDelay jit attempt r) e2)))
      else (None, e))"
  by pat_completeness auto
termination
  by (relation "measure (\<lambda>(maxRetries, baseDelay, jit, attempt, e). Suc maxRetries - attempt)")
    auto

definition fetchWithRetry_jitter :: "env \<Rightarrow> string option \<times> env" where
  "fetchWithRetry_jitter e = retry_jitter MAX_RETRIES BASE_DELAY_MS JITTER 0 e"

subsection \<open>The component's state\<close>

text \<open>
  \<^verbatim>\<open>cacheRef\<close>, \<^verbatim>\<open>seenRef\<close> and \<^verbatim>\<open>tapsRef\<close> with the React state the pipeline writes.
  \<open>limitUntil\<close> is \<open>None\<close> for \<^verbatim>\<open>null\<close>. The countdown of the popup (the seconds shown,
  and the timer that clears \<open>limitUntil\<close>) is presentation and is left out.
\<close>

record app =
  fact :: string
  busy :: bool
  cache :: "string list"
  seen :: "string set"
  taps :: "int list"
  limitUntil :: "int option"
  showLimit :: bool

text \<open>The state at the first render. The loading text of \<^verbatim>\<open>src/App.js\<close> ends with the
  three characters U+00E2 U+20AC U+00A6, in UTF-8.\<close>

definition initial_app :: app where
  "initial_app =
     \<lparr>fact = ''loading fun fact''
               @ [CHR 0xC3, CHR 0xA2, CHR 0xE2, CHR 0x82, CHR 0xAC, CHR 0xC2, CHR 0xA6],
      busy = False,
      cache = [], seen = {}, taps = [], limitUntil = None, showLimit = False\<rparr>"

text \<open>
  The fallback list of \<^verbatim>\<open>src/App.js\<close>. The last entry holds the three characters
  U+00E2 U+20AC U+2122 of the source file, in UTF-8.
\<close>

definition FALLBACK :: "string list" where
  "FALLBACK =
     [''honey never spoils.'',
      ''octopuses have three hearts.'',
      ''sharks existed before trees.'',
      ''wombat poop is cube-shaped.'',
      ''bananas are berries; strawberries aren''
        @ [CHR 0xC3, CHR 0xA2, CHR 0xE2, CHR 0x82, CHR 0xAC, CHR 0xE2, CHR 0x84, CHR 0xA2]
        @ ''t.'']"

definition MAX_PER_MINUTE :: nat where "MAX_PER_MINUTE = 5"
definition WINDOW_MS :: int where "WINDOW_MS = 60000"

text \<open>\<^verbatim>\<open>!f\<close> for a variable that holds a string, \<^verbatim>\<open>null\<close> or \<^verbatim>\<open>undefined\<close>.\<close>

definition falsy :: "string option \<Rightarrow> bool" where
  "falsy f = (case f of None \<Rightarrow> True | Some t \<Rightarrow> t = [])"

subsection \<open>The cache: \<^verbatim>\<open>primeCache\<close> and \<^verbatim>\<open>shift\<close>\<close>

text \<open>The guarded push of the loop body: the test on the seen-set, the push and the add
  run without an \<^verbatim>\<open>await\<close> between them.\<close>

definition enqueue :: "string \<Rightarrow> app \<Rightarrow> app" where
  "enqueue f s =
     (if f \<notin> seen s then s\<lparr>cache := cache s @ [f], seen := insert f (seen s)\<rparr> else s)"

text \<open>
  The loop of \<^verbatim>\<open>primeCache\<close>, over the function that fetches (the three files differ
  only there). The loop has no bound of its own: \<open>None\<close> is a loop that never ends. The
  \<^verbatim>\<open>try\<close> around the loop in two of the files catches nothing, since neither
  \<^verbatim>\<open>fetchWithRetry\<close> throws.
\<close>

partial_function (option) primeCache_with ::
  "(env \<Rightarrow> string option \<times> env) \<Rightarrow> app \<Rightarrow> env \<Rightarrow> (app \<times> env) option" where
  "primeCache_with fetcher s e =
     (if length (cache s) < 4 then
        (case fetcher e of
           (f, e1) \<Rightarrow>
             (case f of
                None \<Rightarrow> Some (s, e1)
              | Some t \<Rightarrow>
                  if t = [] then Some (s, e1)
                  else primeCache_with fetcher (enqueue t s) e1))
      else Some (s, e))"

definition primeCache :: "app \<Rightarrow> env \<Rightarrow> (app \<times> env) option" where
  "primeCache = primeCache_with fetchWithRetry"

definition primeCache_jitter :: "app \<Rightarrow> env \<Rightarrow> (app \<times> env) option" where
  "primeCache_jitter = primeCache_with fetchWithRetry_jitter"

text \<open>\<^verbatim>\<open>cacheRef.current.shift()\<close>: \<^verbatim>\<open>undefined\<close> on the empty array.\<close>

definition shift :: "app \<Rightarrow> string option \<times> app" where
  "shift s = (case cache s of [] \<Rightarrow> (None, s) | f # fs \<Rightarrow> (Some f, s\<lparr>cache := fs\<rparr>))"

subsection \<open>The rate limiter: \<^verbatim>\<open>canTap\<close>\<close>

definition canTap :: "int \<Rightarrow> app \<Rightarrow> bool \<times> app" where
  "canTap now s =
     (let s1 = s\<lparr>taps := filter (\<lambda>t. now - t < WINDOW_MS) (taps s)\<rparr> in
      if length (taps s1) \<ge> MAX_PER_MINUTE then
        (let oldest = Min (set (taps s1));
             nextAt = oldest + WINDOW_MS
         in (False, s1\<lparr>limitUntil := Some nextAt, showLimit := True\<rparr>))
      else (True, s1\<lparr>taps := taps s1 @ [now]\<rparr>))"

subsection \<open>\<^verbatim>\<open>getNextFact\<close>, the initial load and \<^verbatim>\<open>handlePress\<close>\<close>

text \<open>\<^verbatim>\<open>FALLBACK[Math.floor(Math.random() * FALLBACK.length)].toLowerCase()\<close>: an index
  outside the list gives \<^verbatim>\<open>undefined\<close>, and the method call on it throws.\<close>

definition pickFallback :: "env \<Rightarrow> (error + string) \<times> env" where
  "pickFallback e =
     (case random e of
        (r, e1) \<Rightarrow>
          (let i = \<lfloor>r * real (length FALLBACK)\<rfloor> in
           if 0 \<le> i \<and> i < int (length FALLBACK)
           then (Inr (toLowerCase (FALLBACK ! nat i)), e1)
           else (Inl TypeError, e1)))"

text \<open>\<^verbatim>\<open>if (!f) f = await fetchWithRetry(...)\<close>\<close>

definition orFetch :: "string option \<Rightarrow> env \<Rightarrow> string option \<times> env" where
  "orFetch f e = (if falsy f then fetchWithRetry e else (f, e))"

text \<open>\<^verbatim>\<open>if (!f) f = FALLBACK[...].toLowerCase()\<close>\<close>

definition orFallback :: "string option \<Rightarrow> env \<Rightarrow> (error + string) \<times> env" where
  "orFallback f e =
     (case f of
        None \<Rightarrow> pickFallback e
      | Some t \<Rightarrow> if t = [] then pickFallback e else (Inr t, e))"

text \<open>
  What \<^verbatim>\<open>getNextFact\<close> itself does: the error its promise rejects with (\<open>None\<close> when it
  resolves) and the state and environment its own statements leave. The call
  \<^verbatim>\<open>primeCache()\<close> after \<^verbatim>\<open>setFact\<close> is not awaited: it tests the queue and sends the first
  request of the refill at once, before the promise of \<^verbatim>\<open>getNextFact\<close> settles, and the
  rest of its loop runs later. The requests of the refill are those of \<open>primeCache\<close>, and
  \<open>getNextFact_refill\<close> is the two in sequence.
\<close>

definition getNextFact :: "app \<Rightarrow> env \<Rightarrow> error option \<times> app \<times> env" where
  "getNextFact s e =
     (case shift (s\<lparr>busy := True\<rparr>) of
        (f0, s1) \<Rightarrow>
          (case orFetch f0 e of
             (f1, e1) \<Rightarrow>
               (case orFallback f1 e1 of
                  (Inl err, e2) \<Rightarrow> (Some err, s1\<lparr>busy := False\<rparr>, e2)
                | (Inr f2, e2) \<Rightarrow> (None, s1\<lparr>fact := f2, busy := False\<rparr>, e2))))"

definition getNextFact_refill :: "app \<Rightarrow> env \<Rightarrow> (error option \<times> app \<times> env) option" where
  "getNextFact_refill s e =
     (case getNextFact s e of
        (Some err, s1, e1) \<Rightarrow> Some (Some err, s1, e1)
      | (None, s1, e1) \<Rightarrow>
          (case primeCache s1 e1 of
             None \<Rightarrow> None
           | Some (s2, e2) \<Rightarrow> Some (None, s2, e2)))"

text \<open>The effect that runs once after the first render.\<close>

definition initialLoad :: "app \<Rightarrow> env \<Rightarrow> error option \<times> app \<times> env" where
  "initialLoad s e =
     (let s1 = s\<lparr>busy := True\<rparr> in
      case fetchWithRetry e of
        (f1, e1) \<Rightarrow>
          (case orFallback f1 e1 of
             (Inl err, e2) \<Rightarrow> (Some err, s1\<lparr>busy := False\<rparr>, e2)
           | (Inr f2, e2) \<Rightarrow> (None, s1\<lparr>fact := f2, busy := False\<rparr>, e2)))"

text \<open>
  \<^verbatim>\<open>handlePress\<close>, with the two readings of the clock (its own and the one in
  \<^verbatim>\<open>canTap\<close>). The first component tells whether \<^verbatim>\<open>getNextFact\<close> was called.
\<close>

definition handlePress ::
  "int \<Rightarrow> int \<Rightarrow> app \<Rightarrow> env \<Rightarrow> bool \<times> error option \<times> app \<times> env" where
  "handlePress now1 now2 s e =
     (if busy s then (False, None, s, e)
      else if (case limitUntil s of None \<Rightarrow> False | Some l \<Rightarrow> l \<noteq> 0 \<and> now1 < l)
      then (False, None, s\<lparr>showLimit := True\<rparr>, e)
      else (case canTap now2 s of
              (False, s1) \<Rightarrow> (False, None, s1, e)
            | (True, s1) \<Rightarrow> (True, getNextFact s1 e)))"

subsection \<open>Sessions on the cache\<close>

text \<open>
  The two pieces of code that write \<^verbatim>\<open>cacheRef\<close> or \<^verbatim>\<open>seenRef\<close>, each running without
  an \<^verbatim>\<open>await\<close> inside: one turn of the loop of \<^verbatim>\<open>primeCache\<close>, from the value \<open>f\<close> its
  \<^verbatim>\<open>fetchWithRetry\<close> returned (\<open>refill f\<close>: the \<^verbatim>\<open>break\<close> on a falsy value, else the guarded
  push), and the \<^verbatim>\<open>shift\<close> of \<^verbatim>\<open>getNextFact\<close>. A session is any sequence of them, so also
  one where the turns of several refills that are in flight interleave.
\<close>

definition refill :: "string option \<Rightarrow> app \<Rightarrow> app" where
  "refill f s = (case f of None \<Rightarrow> s | Some t \<Rightarrow> if t = [] then s else enqueue t s)"

datatype cache_op = Refilled "string option" | Shifted

fun cache_step :: "cache_op \<Rightarrow> app \<Rightarrow> app" where
  "cache_step (Refilled f) s = refill f s"
| "cache_step Shifted s = snd (shift s)"

definition run :: "cache_op list \<Rightarrow> app \<Rightarrow> app" where
  "run ops s = fold cache_step ops s"

text \<open>What the sessions keep: the queue lies within the seen-set and has no text twice.\<close>

definition cache_inv :: "app \<Rightarrow> bool" where
  "cache_inv s = (set (cache s) \<subseteq> seen s \<and> distinct (cache s) \<and> finite (seen s))"

subsection \<open>Example environments\<close>

text \<open>
  A network that answers the k-th request with the k-th text of a list as
  \<^verbatim>\<open>{"text": ...}\<close> and rejects every later request, with \<^verbatim>\<open>Math.random()\<close> constantly
  one half; and the network that rejects every request.
\<close>

definition answer :: "string \<Rightarrow> http_result" where
  "answer t = Response True (Some (JObj [(''text'', JStr t)]))"

definition serving :: "string list \<Rightarrow> env" where
  "serving ts =
     \<lparr>net = (\<lambda>k. if k < length ts then answer (ts ! k) else Rejected), fetched = 0,
      rand = (\<lambda>k. 1 / 2), drawn = 0, slept = []\<rparr>"

definition offline :: env where
  "offline = serving []"


text \<open>
  Two networks for the sessions of claim C10: one that serves the same text twice, and
  one that fails six times (an empty text is a failure) before it serves, twice, a fact
  of the fallback list.
\<close>

definition twice :: env where
  "twice = serving [''A'', ''A'']"

definition late :: env where
  "late = serving [[], [], [], [], [], [], ''Sharks existed before trees.'',
                   ''Sharks existed before trees.'']"

section \<open>Properties\<close>

declare fetchWithRetry_loop.simps [simp del] retry_jitter.simps [simp del]

subsection \<open>One attempt\<close>

lemma tryFetch_fails:
  assumes "textOf (net e (fetched e)) = None"
  shows "\<exists>err. tryFetch e = (Inl err, e\<lparr>fetched := Suc (fetched e)\<rparr>)"
proof (cases "net e (fetched e)")
  case Rejected
  with assms show ?thesis by (simp add: tryFetch_def fetchJson_def)
next
  case (Response ok body)
  with assms show ?thesis
    by (cases body)
       (auto simp: tryFetch_def fetchJson_def Let_def split: jsval.splits if_splits)
qed

lemma tryFetch_succeeds:
  assumes "textOf (net e (fetched e)) = Some s"
  shows "tryFetch e = (Inr (toLowerCase s), e\<lparr>fetched := Suc (fetched e)\<rparr>)"
proof (cases "net e (fetched e)")
  case Rejected
  with assms show ?thesis by (simp add: tryFetch_def fetchJson_def)
next
  case (Response ok body)
  with assms show ?thesis
    by (cases body)
       (auto simp: tryFetch_def fetchJson_def Let_def split: jsval.splits if_splits)
qed

lemma tryFetch_jitter_fails:
  assumes "textOf (net e (fetched e)) = None"
  shows "\<exists>err. tryFetch_jitter e = (Inl err, e\<lparr>fetched := Suc (fetched e)\<rparr>)"
proof (cases "net e (fetched e)")
  case Rejected
  with assms show ?thesis by (simp add: tryFetch_jitter_def fetchJson_def)
next
  case (Response ok body)
  with assms show ?thesis
    by (cases body)
       (auto simp: tryFetch_jitter_def fetchJson_def Let_def split: jsval.splits if_splits)
qed

lemma tryFetch_jitter_succeeds:
  assumes "textOf (net e (fetched e)) = Some s"
  shows "tryFetch_jitter e = (Inr s, e\<lparr>fetched := Suc (fetched e)\<rparr>)"
proof (cases "net e (fetched e)")
  case Rejected
  with assms show ?thesis by (simp add: tryFetch_jitter_def fetchJson_def)
next
  case (Response ok body)
  with assms show ?thesis
    by (cases body)
       (auto simp: tryFetch_jitter_def fetchJson_def Let_def split: jsval.splits if_splits)
qed

lemma loop_failures:
  "\<forall>k<n. textOf (net e (fetched e + k)) = None \<Longrightarrow> a + n \<le> 3 \<Longrightarrow>
   fetchWithRetry_loop a d e =
   fetchWithRetry_loop (a + n) (d * 2 ^ n)
     (e\<lparr>fetched := fetched e + n, slept := slept e @ map (\<lambda>k. d * 2 ^ k) [0..<n]\<rparr>)"
proof (induction n arbitrary: a d e)
  case 0
  then show ?case by simp
next
  case (Suc n)
  from Suc.prems(1) have "textOf (net e (fetched e)) = None" by force
  then obtain err where t: "tryFetch e = (Inl err, e\<lparr>fetched := Suc (fetched e)\<rparr>)"
    using tryFetch_fails by blast
  let ?e1 = "sleep d (e\<lparr>fetched := Suc (fetched e)\<rparr>)"
  have a: "a < 3" using Suc.prems(2) by simp
  have step: "fetchWithRetry_loop a d e = fetchWithRetry_loop (a + 1) (d * 2) ?e1"
    by (subst fetchWithRetry_loop.simps) (simp add: t a)
  have "\<forall>k<n. textOf (net ?e1 (fetched ?e1 + k)) = None"
    using Suc.prems(1) by (auto simp: sleep_def)
  moreover have "(a + 1) + n \<le> 3" using Suc.prems(2) by simp
  ultimately have "fetchWithRetry_loop (a + 1) (d * 2) ?e1 =
    fetchWithRetry_loop (a + 1 + n) (d * 2 * 2 ^ n)
     (?e1\<lparr>fetched := fetched ?e1 + n, slept := slept ?e1 @ map (\<lambda>k. d * 2 * 2 ^ k) [0..<n]\<rparr>)"
    by (rule Suc.IH)
  with step show ?case
    by (simp add: sleep_def map_upt_Suc mult.assoc del: upt_Suc)
qed


lemma retry_jitter_failures:
  "\<forall>k<n. textOf (net e (fetched e + k)) = None \<Longrightarrow> a + n \<le> m \<Longrightarrow>
   retry_jitter m b j a e =
   retry_jitter m b j (a + n)
     (e\<lparr>fetched := fetched e + n, drawn := drawn e + n,
        slept := slept e @ map (\<lambda>k. backoff b j (a + k) (rand e (drawn e + k))) [0..<n]\<rparr>)"
proof (induction n arbitrary: a e)
  case 0
  then show ?case by simp
next
  case (Suc n)
  from Suc.prems(1) have "textOf (net e (fetched e)) = None" by force
  then obtain err where t: "tryFetch_jitter e = (Inl err, e\<lparr>fetched := Suc (fetched e)\<rparr>)"
    using tryFetch_jitter_fails by blast
  let ?e1 = "sleep (backoff b j a (rand e (drawn e)))
               (e\<lparr>fetched := Suc (fetched e), drawn := Suc (drawn e)\<rparr>)"
  have a: "a < m" using Suc.prems(2) by simp
  have step: "retry_jitter m b j a e = retry_jitter m b j (a + 1) ?e1"
    using a by (subst retry_jitter.simps) (simp add: t random_def)
  have "\<forall>k<n. textOf (net ?e1 (fetched ?e1 + k)) = None"
    using Suc.prems(1) by (auto simp: sleep_def)
  moreover have "(a + 1) + n \<le> m" using Suc.prems(2) by simp
  ultimately have "retry_jitter m b j (a + 1) ?e1 =
    retry_jitter m b j (a + 1 + n)
     (?e1\<lparr>fetched := fetched ?e1 + n, drawn := drawn ?e1 + n,
        slept := slept ?e1 @ map (\<lambda>k. backoff b j (a + 1 + k) (rand ?e1 (drawn ?e1 + k))) [0..<n]\<rparr>)"
    by (rule Suc.IH)
  with step show ?case
    by (simp add: sleep_def map_upt_Suc del: upt_Suc)
qed

lemma fetchWithRetry_exhausted:
  assumes "\<forall>k<3. textOf (net e (fetched e + k)) = None"
  shows "fetchWithRetry e =
         (None, e\<lparr>fetched := fetched e + 3, slept := slept e @ [400, 800, 1600]\<rparr>)"
proof -
  have "fetchWithRetry_loop 0 400 e =
        fetchWithRetry_loop (0 + 3) (400 * 2 ^ 3)
          (e\<lparr>fetched := fetched e + 3, slept := slept e @ map (\<lambda>k. 400 * 2 ^ k) [0..<3]\<rparr>)"
    using assms by (intro loop_failures) auto
  moreover have "map (\<lambda>k. 400 * 2 ^ k) [0..<3] = [400, 800, 1600 :: real]"
    by (simp add: upt_rec)
  ultimately show ?thesis
    by (simp add: fetchWithRetry_def fetchWithRetry_loop.simps [of 3])
qed

lemma fetchWithRetry_success:
  assumes "n < 3" "\<forall>k<n. textOf (net e (fetched e + k)) = None"
    and "textOf (net e (fetched e + n)) = Some s"
  shows "fetchWithRetry e =
         (Some (toLowerCase s),
          e\<lparr>fetched := fetched e + Suc n, slept := slept e @ map (\<lambda>k. 400 * 2 ^ k) [0..<n]\<rparr>)"
proof -
  let ?e1 = "e\<lparr>fetched := fetched e + n, slept := slept e @ map (\<lambda>k. 400 * 2 ^ k) [0..<n]\<rparr>"
  have "fetchWithRetry_loop 0 400 e = fetchWithRetry_loop (0 + n) (400 * 2 ^ n) ?e1"
    using assms(1,2) by (intro loop_failures) auto
  moreover have "tryFetch ?e1 = (Inr (toLowerCase s), ?e1\<lparr>fetched := Suc (fetched ?e1)\<rparr>)"
    using assms(3) by (intro tryFetch_succeeds) simp
  ultimately show ?thesis
    using assms(1) by (simp add: fetchWithRetry_def fetchWithRetry_loop.simps [of n])
qed

lemma retry_jitter_exhausted:
  assumes "\<forall>k\<le>m. textOf (net e (fetched e + k)) = None"
  shows "retry_jitter m b j 0 e =
         (None, e\<lparr>fetched := fetched e + Suc m, drawn := drawn e + m,
                  slept := slept e @ map (\<lambda>k. backoff b j k (rand e (drawn e + k))) [0..<m]\<rparr>)"
proof -
  let ?e1 = "e\<lparr>fetched := fetched e + m, drawn := drawn e + m,
        slept := slept e @ map (\<lambda>k. backoff b j (0 + k) (rand e (drawn e + k))) [0..<m]\<rparr>"
  have "retry_jitter m b j 0 e = retry_jitter m b j (0 + m) ?e1"
    using assms by (intro retry_jitter_failures) auto
  moreover have "textOf (net ?e1 (fetched ?e1)) = None"
    using assms by simp
  then obtain err where "tryFetch_jitter ?e1 = (Inl err, ?e1\<lparr>fetched := Suc (fetched ?e1)\<rparr>)"
    using tryFetch_jitter_fails by blast
  ultimately show ?thesis
    by (simp add: retry_jitter.simps [of m _ _ m])
qed

lemma retry_jitter_success:
  assumes "n \<le> m" "\<forall>k<n. textOf (net e (fetched e + k)) = None"
    and "textOf (net e (fetched e + n)) = Some s"
  shows "retry_jitter m b j 0 e =
         (Some s, e\<lparr>fetched := fetched e + Suc n, drawn := drawn e + n,
                    slept := slept e @ map (\<lambda>k. backoff b j k (rand e (drawn e + k))) [0..<n]\<rparr>)"
proof -
  let ?e1 = "e\<lparr>fetched := fetched e + n, drawn := drawn e + n,
        slept := slept e @ map (\<lambda>k. backoff b j (0 + k) (rand e (drawn e + k))) [0..<n]\<rparr>"
  have "retry_jitter m b j 0 e = retry_jitter m b j (0 + n) ?e1"
    using assms(1,2) by (intro retry_jitter_failures) auto
  moreover have "tryFetch_jitter ?e1 = (Inr s, ?e1\<lparr>fetched := Suc (fetched ?e1)\<rparr>)"
    using assms(3) by (intro tryFetch_jitter_succeeds) simp
  ultimately show ?thesis
    using assms(1) by (simp add: retry_jitter.simps [of m _ _ n])
qed


lemma textOf_answer: "textOf (answer t) = (if t = [] then None else Some t)"
  by (simp add: answer_def)

lemma net_serving:
  "net (serving ts) k = (if k < length ts then answer (ts ! k) else Rejected)"
  by (simp add: serving_def)

lemma serving_fields:
  "fetched (serving ts) = 0" "drawn (serving ts) = 0" "slept (serving ts) = []"
  "rand (serving ts) k = 1 / 2"
  by (simp_all add: serving_def)


subsection \<open>\<^verbatim>\<open>fetchWithRetry\<close> of \<^verbatim>\<open>src/App.js\<close>, unfolded\<close>

lemma fetchWithRetry_unfold:
  "fetchWithRetry e =
    (case textOf (net e (fetched e)) of
       Some s \<Rightarrow> (Some (toLowerCase s), e\<lparr>fetched := fetched e + 1\<rparr>)
     | None \<Rightarrow>
        (case textOf (net e (fetched e + 1)) of
           Some s \<Rightarrow> (Some (toLowerCase s), e\<lparr>fetched := fetched e + 2, slept := slept e @ [400]\<rparr>)
         | None \<Rightarrow>
            (case textOf (net e (fetched e + 2)) of
               Some s \<Rightarrow> (Some (toLowerCase s),
                           e\<lparr>fetched := fetched e + 3, slept := slept e @ [400, 800]\<rparr>)
             | None \<Rightarrow> (None, e\<lparr>fetched := fetched e + 3, slept := slept e @ [400, 800, 1600]\<rparr>))))"
proof (cases "textOf (net e (fetched e))")
  case (Some s)
  then show ?thesis using fetchWithRetry_success [of 0 e s] by simp
next
  case n0: None
  show ?thesis
  proof (cases "textOf (net e (fetched e + 1))")
    case (Some s)
    then show ?thesis using n0 fetchWithRetry_success [of 1 e s] by simp
  next
    case n1: None
    show ?thesis
    proof (cases "textOf (net e (fetched e + 2))")
      case (Some s)
      have "\<forall>k<2. textOf (net e (fetched e + k)) = None"
        using n0 n1 by (auto simp: less_Suc_eq numeral_2_eq_2)
      then show ?thesis using n0 n1 Some fetchWithRetry_success [of 2 e s]
        by (simp add: upt_rec)
    next
      case n2: None
      have "\<forall>k<3. textOf (net e (fetched e + k)) = None"
        using n0 n1 n2 by (auto simp: less_Suc_eq numeral_3_eq_3)
      then show ?thesis using n0 n1 n2 fetchWithRetry_exhausted [of e] by simp
    qed
  qed
qed

lemma fetchWithRetry_nonempty: "fst (fetchWithRetry e) = Some t \<Longrightarrow> t \<noteq> []"
proof -
  have ne: "\<And>s. textOf r = Some s \<Longrightarrow> toLowerCase s \<noteq> []" for r
  proof -
    fix s assume "textOf r = Some s"
    then have "s \<noteq> []"
      by (induct r rule: textOf.induct) (auto split: if_splits jsval.splits)
    then show "toLowerCase s \<noteq> []" by (simp add: toLowerCase_def)
  qed
  assume "fst (fetchWithRetry e) = Some t"
  then show ?thesis
    unfolding fetchWithRetry_unfold
    by (auto split: option.splits dest: ne)
qed

lemma fetchWithRetry_drawn: "drawn (snd (fetchWithRetry e)) = drawn e" "rand (snd (fetchWithRetry e)) = rand e"
  by (simp_all add: fetchWithRetry_unfold split: option.splits)

lemma fetchWithRetry_wait:
  assumes "\<forall>i\<le>k. textOf (net e (fetched e + i)) = None" and "k < 2"
  shows "length (slept e) + k < length (slept (snd (fetchWithRetry e))) \<and>
         slept (snd (fetchWithRetry e)) ! (length (slept e) + k) = 400 * 2 ^ k"
proof -
  from assms(1) have f0: "textOf (net e (fetched e)) = None" by force
  from assms(2) consider "k = 0" | "k = 1" by linarith
  then show ?thesis
  proof cases
    case 1
    with f0 show ?thesis
      by (simp add: fetchWithRetry_unfold nth_append split: option.splits)
  next
    case 2
    with assms(1) have "textOf (net e (fetched e + 1)) = None" by (metis le_refl)
    with f0 2 show ?thesis
      by (simp add: fetchWithRetry_unfold nth_append split: option.splits)
  qed
qed

lemma fetchWithRetry_slept_prefix:
  "take (length (slept e)) (slept (snd (fetchWithRetry e))) = slept e"
  by (simp add: fetchWithRetry_unfold split: option.splits)

subsection \<open>Claims on \<^verbatim>\<open>fetchWithRetry\<close>\<close>

text \<open>
  Claim C2, as amended. When every response is a failure, \<^verbatim>\<open>fetchWithRetry\<close> of
  \<^verbatim>\<open>part_000\<close> returns \<^verbatim>\<open>null\<close> after exactly \<open>MAX_RETRIES + 1 = 4\<close> requests (and its loop
  run with any bound \<open>m\<close> after exactly \<open>m + 1\<close>), while \<^verbatim>\<open>fetchWithRetry\<close> of
  \<^verbatim>\<open>src/App.js\<close> and \<^verbatim>\<open>part_001\<close>, whose loop is \<^verbatim>\<open>while (attempt < 3)\<close>, returns
  \<^verbatim>\<open>null\<close> after exactly 3 requests.
\<close>

theorem fetchWithRetry_failing_attempts:
  assumes "\<forall>k. textOf (net e k) = None"
  shows "fst (fetchWithRetry_jitter e) = None \<and>
         fetched (snd (fetchWithRetry_jitter e)) = fetched e + (MAX_RETRIES + 1) \<and>
         MAX_RETRIES + 1 = 4 \<and>
         fst (retry_jitter m b j 0 e) = None \<and>
         fetched (snd (retry_jitter m b j 0 e)) = fetched e + (m + 1) \<and>
         fst (fetchWithRetry e) = None \<and>
         fetched (snd (fetchWithRetry e)) = fetched e + 3"
  using assms
  by (simp add: fetchWithRetry_jitter_def retry_jitter_exhausted fetchWithRetry_exhausted
      MAX_RETRIES_def)

theorem fetchWithRetry_failing_attempts_witness:
  "fst (fetchWithRetry_jitter offline) = None \<and>
   fetched (snd (fetchWithRetry_jitter offline)) = 4 \<and>
   fst (fetchWithRetry offline) = None \<and>
   fetched (snd (fetchWithRetry offline)) = 3"
  using fetchWithRetry_failing_attempts [of offline 3 400 "1 / 4"]
  by (simp add: offline_def net_serving serving_fields MAX_RETRIES_def)

theorem fetchWithRetry_three_attempts_counterexample:
  "(\<forall>k. textOf (net offline k) = None) \<and>
   fst (fetchWithRetry offline) = None \<and>
   fetched (snd (fetchWithRetry offline)) = 3 \<and>
   fetched (snd (fetchWithRetry offline)) \<noteq> 4"
  by (simp add: fetchWithRetry_exhausted offline_def net_serving serving_fields)



text \<open>The jittered wait stays within the fraction \<open>j\<close> of the base delay, floored at 100.\<close>

lemma backoff_bounds:
  assumes "0 \<le> r" "r < 1" "0 \<le> b" "0 \<le> j"
  shows "max 100 (b * 2 ^ k * (1 - j)) \<le> backoff b j k r"
    and "backoff b j k r \<le> max 100 (b * 2 ^ k * (1 + j))"
proof -
  let ?base = "b * 2 ^ k"
  have base: "0 \<le> ?base" using assms(3) by simp
  have eq: "?base + ?base * (r * 2 * j - j) = ?base * (1 + j * (2 * r - 1))"
    by (simp add: algebra_simps)
  have "- j \<le> j * (2 * r - 1)" "j * (2 * r - 1) \<le> j"
    using assms(1,2,4) by (simp_all add: mult_le_cancel_left2 algebra_simps mult_left_le)
  then have "?base * (1 - j) \<le> ?base * (1 + j * (2 * r - 1))"
    and "?base * (1 + j * (2 * r - 1)) \<le> ?base * (1 + j)"
    using base by (simp_all add: mult_left_mono)
  then show "max 100 (b * 2 ^ k * (1 - j)) \<le> backoff b j k r"
    and "backoff b j k r \<le> max 100 (b * 2 ^ k * (1 + j))"
    unfolding backoff_def Let_def eq by linarith+
qed

text \<open>
  Claim C3, as amended. Let the first \<open>n\<close> attempts fail. In \<^verbatim>\<open>part_000\<close> the wait after
  the failed attempt \<open>k\<close> is \<open>max 100 (base + base * (r * 2 * JITTER - JITTER))\<close> with
  \<open>base = BASE_DELAY_MS * 2 ^ k\<close> and \<open>r\<close> the next value of \<^verbatim>\<open>Math.random()\<close>, which lies
  between \<open>max 100 (base * (1 - JITTER))\<close> and \<open>max 100 (base * (1 + JITTER))\<close>; there is
  one wait for each failed attempt before the last allowed one and none after the last
  (\<open>m\<close> waits when all \<open>m + 1\<close> attempts fail, \<open>n\<close> waits when attempt \<open>n\<close> succeeds). In
  \<^verbatim>\<open>src/App.js\<close> and \<^verbatim>\<open>part_001\<close> the wait after a failed attempt \<open>k\<close> that another attempt
  follows (the first or the second) is exactly \<open>400 * 2 ^ k\<close>, with no floor and no
  jitter: \<^verbatim>\<open>Math.random()\<close> is not called.
\<close>

theorem fetchWithRetry_waits:
  assumes "\<forall>i<n. textOf (net e (fetched e + i)) = None"
  shows
   "(n = Suc m \<longrightarrow>
       slept (snd (retry_jitter m b j 0 e)) =
       slept e @ map (\<lambda>k. backoff b j k (rand e (drawn e + k))) [0..<m]) \<and>
    (n \<le> m \<and> textOf (net e (fetched e + n)) \<noteq> None \<longrightarrow>
       slept (snd (retry_jitter m b j 0 e)) =
       slept e @ map (\<lambda>k. backoff b j k (rand e (drawn e + k))) [0..<n]) \<and>
    fetchWithRetry_jitter e = retry_jitter 3 400 (1 / 4) 0 e \<and>
    backoff b j k r = max 100 (b * 2 ^ k + b * 2 ^ k * (r * 2 * j - j)) \<and>
    (0 \<le> r \<and> r < 1 \<and> 0 \<le> b \<and> 0 \<le> j \<longrightarrow>
       max 100 (b * 2 ^ k * (1 - j)) \<le> backoff b j k r \<and>
       backoff b j k r \<le> max 100 (b * 2 ^ k * (1 + j))) \<and>
    (k < n \<and> k < 2 \<longrightarrow>
       length (slept e) + k < length (slept (snd (fetchWithRetry e))) \<and>
       slept (snd (fetchWithRetry e)) ! (length (slept e) + k) = 400 * 2 ^ k) \<and>
    take (length (slept e)) (slept (snd (fetchWithRetry e))) = slept e \<and>
    drawn (snd (fetchWithRetry e)) = drawn e"
proof (intro conjI impI)
  assume "n = Suc m"
  with assms have "\<forall>k\<le>m. textOf (net e (fetched e + k)) = None" by (simp add: less_Suc_eq_le)
  then show "slept (snd (retry_jitter m b j 0 e)) =
       slept e @ map (\<lambda>k. backoff b j k (rand e (drawn e + k))) [0..<m]"
    by (simp add: retry_jitter_exhausted)
next
  assume "n \<le> m \<and> textOf (net e (fetched e + n)) \<noteq> None"
  then obtain s where "n \<le> m" "textOf (net e (fetched e + n)) = Some s" by auto
  with assms show "slept (snd (retry_jitter m b j 0 e)) =
       slept e @ map (\<lambda>k. backoff b j k (rand e (drawn e + k))) [0..<n]"
    by (simp add: retry_jitter_success)
next
  show "fetchWithRetry_jitter e = retry_jitter 3 400 (1 / 4) 0 e"
    by (simp add: fetchWithRetry_jitter_def MAX_RETRIES_def BASE_DELAY_MS_def JITTER_def)
next
  show "backoff b j k r = max 100 (b * 2 ^ k + b * 2 ^ k * (r * 2 * j - j))"
    by (simp add: backoff_def Let_def)
next
  assume "0 \<le> r \<and> r < 1 \<and> 0 \<le> b \<and> 0 \<le> j"
  then have "0 \<le> r" "r < 1" "0 \<le> b" "0 \<le> j" by simp_all
  then show "max 100 (b * 2 ^ k * (1 - j)) \<le> backoff b j k r"
    by (rule backoff_bounds)
next
  assume "0 \<le> r \<and> r < 1 \<and> 0 \<le> b \<and> 0 \<le> j"
  then have "0 \<le> r" "r < 1" "0 \<le> b" "0 \<le> j" by simp_all
  then show "backoff b j k r \<le> max 100 (b * 2 ^ k * (1 + j))"
    by (rule backoff_bounds)
next
  assume a: "k < n \<and> k < 2"
  with assms have f: "\<forall>i\<le>k. textOf (net e (fetched e + i)) = None" by simp
  from fetchWithRetry_wait [OF f] a
  show "length (slept e) + k < length (slept (snd (fetchWithRetry e)))"
    and "slept (snd (fetchWithRetry e)) ! (length (slept e) + k) = 400 * 2 ^ k"
    by simp_all
next
  show "take (length (slept e)) (slept (snd (fetchWithRetry e))) = slept e"
    by (rule fetchWithRetry_slept_prefix)
next
  show "drawn (snd (fetchWithRetry e)) = drawn e"
    by (rule fetchWithRetry_drawn)
qed

theorem fetchWithRetry_waits_witness:
  "slept (snd (retry_jitter 2 400 (1 / 4) 0 offline)) = [400, 800] \<and>
   slept (snd (retry_jitter 3 400 (1 / 4) 0 (serving [[], ''A'']))) = [400] \<and>
   slept (snd (fetchWithRetry offline)) ! 1 = 800 \<and>
   slept (snd (fetchWithRetry (serving [[], ''A'']))) ! 0 = 400 \<and>
   300 \<le> backoff 400 (1 / 4) 0 (1 / 2) \<and> backoff 400 (1 / 4) 0 (1 / 2) \<le> 500"
  using fetchWithRetry_waits [of 3 offline 2 400 "1 / 4" 1 "1 / 2"]
    fetchWithRetry_waits [of 1 "serving [[], ''A'']" 3 400 "1 / 4" 0 "1 / 2"]
  by (simp add: offline_def net_serving serving_fields textOf_answer backoff_def upt_rec)

theorem fetchWithRetry_waits_counterexample:
  "fst (fetchWithRetry offline) = None \<and>
   fetched (snd (fetchWithRetry offline)) = 3 \<and>
   slept (snd (fetchWithRetry offline)) = [400, 800, 1600] \<and>
   drawn (snd (fetchWithRetry offline)) = 0"
  by (simp add: fetchWithRetry_exhausted offline_def net_serving serving_fields)

text \<open>
  Claim C8, as amended. When the attempt \<open>n\<close> is the first whose response carries a
  non-empty string \<open>s\<close> as its text, \<^verbatim>\<open>fetchWithRetry\<close> returns at once, after exactly
  \<open>n + 1\<close> requests: in \<^verbatim>\<open>src/App.js\<close> and \<^verbatim>\<open>part_001\<close> (for \<open>n < 3\<close>) it returns \<open>s\<close> in
  lower case; in \<^verbatim>\<open>part_000\<close> (for \<open>n \<le> MAX_RETRIES\<close>) it returns \<open>s\<close> as it is.
\<close>

theorem fetchWithRetry_first_success:
  assumes "\<forall>k<n. textOf (net e (fetched e + k)) = None"
    and "textOf (net e (fetched e + n)) = Some s"
  shows
   "(n < 3 \<longrightarrow>
       fst (fetchWithRetry e) = Some (toLowerCase s) \<and>
       fetched (snd (fetchWithRetry e)) = fetched e + (n + 1)) \<and>
    (n \<le> MAX_RETRIES \<longrightarrow>
       fst (fetchWithRetry_jitter e) = Some s \<and>
       fetched (snd (fetchWithRetry_jitter e)) = fetched e + (n + 1)) \<and>
    (n \<le> m \<longrightarrow>
       fst (retry_jitter m b j 0 e) = Some s \<and>
       fetched (snd (retry_jitter m b j 0 e)) = fetched e + (n + 1))"
  using assms
  by (simp add: fetchWithRetry_success retry_jitter_success fetchWithRetry_jitter_def)

theorem fetchWithRetry_first_success_witness:
  "fst (fetchWithRetry (serving [[], ''A''])) = Some ''a'' \<and>
   fetched (snd (fetchWithRetry (serving [[], ''A'']))) = 2 \<and>
   fst (fetchWithRetry_jitter (serving [[], ''A''])) = Some ''A'' \<and>
   fetched (snd (fetchWithRetry_jitter (serving [[], ''A'']))) = 2"
  using fetchWithRetry_first_success [of 1 "serving [[], ''A'']" "''A''" 3 400 "1 / 4"]
  by (simp add: net_serving serving_fields textOf_answer MAX_RETRIES_def toLowerCase_def)

theorem fetchWithRetry_jitter_not_lowercased_counterexample:
  "textOf (net (serving [''A'']) 0) = Some ''A'' \<and>
   fst (fetchWithRetry_jitter (serving [''A''])) = Some ''A'' \<and>
   toLowerCase ''A'' = ''a'' \<and>
   fst (fetchWithRetry_jitter (serving [''A''])) \<noteq> Some (toLowerCase ''A'')"
proof -
  have t: "textOf (net (serving [''A'']) (fetched (serving [''A'']) + 0)) = Some ''A''"
    by (simp add: net_serving serving_fields textOf_answer)
  have "fst (fetchWithRetry_jitter (serving [''A''])) = Some ''A''"
    using retry_jitter_success [of 0 3 "serving [''A'']" "''A''" 400 "1 / 4"] t
    by (simp add: fetchWithRetry_jitter_def MAX_RETRIES_def BASE_DELAY_MS_def JITTER_def)
  then show ?thesis
    by (simp add: net_serving textOf_answer toLowerCase_def)
qed

subsection \<open>The rate limiter\<close>

lemma WINDOW_MS_pos: "0 < WINDOW_MS" by (simp add: WINDOW_MS_def)

text \<open>
  Claim C4. A call of \<^verbatim>\<open>canTap\<close> at the time \<open>now\<close> first prunes the window to the
  timestamps \<open>t\<close> with \<open>now - t < WINDOW_MS\<close>. With \<open>MAX_PER_MINUTE\<close> or more left it
  denies: the attempt is not recorded and \<open>limitUntil\<close> becomes the least retained
  timestamp plus \<open>WINDOW_MS\<close>. Otherwise it allows and appends \<open>now\<close>. So every timestamp
  kept lies within the trailing window, and after an allowed call the window holds at
  most \<open>MAX_PER_MINUTE\<close> timestamps.
\<close>

theorem canTap_sliding_window:
  "(let pruned = filter (\<lambda>t. now - t < WINDOW_MS) (taps s);
        allowed = fst (canTap now s);
        s' = snd (canTap now s)
    in (allowed \<longleftrightarrow> length pruned < MAX_PER_MINUTE) \<and>
       (\<not> allowed \<longrightarrow>
          taps s' = pruned \<and> pruned \<noteq> [] \<and>
          limitUntil s' = Some (Min (set pruned) + WINDOW_MS) \<and>
          Min (set pruned) \<in> set pruned \<and> (\<forall>t\<in>set pruned. Min (set pruned) \<le> t)) \<and>
       (allowed \<longrightarrow>
          taps s' = pruned @ [now] \<and> limitUntil s' = limitUntil s \<and>
          length (taps s') \<le> MAX_PER_MINUTE) \<and>
       (\<forall>t\<in>set (taps s'). now - t < WINDOW_MS))"
proof -
  let ?pruned = "filter (\<lambda>t. now - t < WINDOW_MS) (taps s)"
  show ?thesis
  proof (cases "length ?pruned < MAX_PER_MINUTE")
    case True
    then show ?thesis
      by (auto simp: canTap_def Let_def WINDOW_MS_pos)
  next
    case False
    then have ne: "?pruned \<noteq> []" by (auto simp: MAX_PER_MINUTE_def)
    then have "set ?pruned \<noteq> {}" by (simp only: set_empty not_False_eq_True)
    then have "Min (set ?pruned) \<in> set ?pruned"
      by (intro Min_in) (rule finite_set)
    moreover have "\<forall>t\<in>set ?pruned. Min (set ?pruned) \<le> t"
      by simp
    ultimately show ?thesis
      using False ne unfolding canTap_def Let_def by simp
  qed
qed


theorem canTap_sliding_window_witness:
  "\<not> fst (canTap 5000 (initial_app\<lparr>taps := [0, 1000, 2000, 3000, 4000]\<rparr>)) \<and>
   taps (snd (canTap 5000 (initial_app\<lparr>taps := [0, 1000, 2000, 3000, 4000]\<rparr>))) =
     [0, 1000, 2000, 3000, 4000] \<and>
   limitUntil (snd (canTap 5000 (initial_app\<lparr>taps := [0, 1000, 2000, 3000, 4000]\<rparr>))) =
     Some 60000 \<and>
   fst (canTap 61000 (initial_app\<lparr>taps := [0, 1000, 2000, 3000, 4000]\<rparr>)) \<and>
   taps (snd (canTap 61000 (initial_app\<lparr>taps := [0, 1000, 2000, 3000, 4000]\<rparr>))) =
     [2000, 3000, 4000, 61000]"
  using canTap_sliding_window [of 5000 "initial_app\<lparr>taps := [0, 1000, 2000, 3000, 4000]\<rparr>"]
    canTap_sliding_window [of 61000 "initial_app\<lparr>taps := [0, 1000, 2000, 3000, 4000]\<rparr>"]
  by (simp add: Let_def WINDOW_MS_def MAX_PER_MINUTE_def)

lemma canTap_length:
  "length (taps s) \<le> MAX_PER_MINUTE \<Longrightarrow> length (taps (snd (canTap now s))) \<le> MAX_PER_MINUTE"
proof -
  assume a: "length (taps s) \<le> MAX_PER_MINUTE"
  have "length (filter (\<lambda>t. now - t < WINDOW_MS) (taps s)) \<le> length (taps s)"
    by (rule length_filter_le)
  with a have "length (filter (\<lambda>t. now - t < WINDOW_MS) (taps s)) \<le> MAX_PER_MINUTE"
    by (rule le_trans [rotated])
  then show ?thesis
    by (auto simp: canTap_def Let_def)
qed

lemma canTap_session_length:
  "length (taps s) \<le> MAX_PER_MINUTE \<Longrightarrow>
   length (taps (fold (\<lambda>now s. snd (canTap now s)) nows s)) \<le> MAX_PER_MINUTE"
  by (induction nows arbitrary: s) (simp_all add: canTap_length)

subsection \<open>The cache and the seen-set\<close>

lemma cache_inv_initial: "cache_inv initial_app"
  by (simp add: cache_inv_def initial_app_def)

lemma cache_inv_enqueue: "cache_inv s \<Longrightarrow> cache_inv (enqueue t s)"
  by (auto simp: cache_inv_def enqueue_def)

lemma cache_inv_refill: "cache_inv s \<Longrightarrow> cache_inv (refill f s)"
  by (simp add: refill_def cache_inv_enqueue split: option.splits)

lemma cache_inv_shift: "cache_inv s \<Longrightarrow> cache_inv (snd (shift s))"
  by (auto simp: cache_inv_def shift_def split: list.splits)

lemma cache_inv_step: "cache_inv s \<Longrightarrow> cache_inv (cache_step x s)"
  by (cases x) (simp_all add: cache_inv_refill cache_inv_shift)

lemma seen_step: "seen s \<subseteq> seen (cache_step x s)"
  by (cases x) (auto simp: refill_def enqueue_def shift_def split: option.splits list.splits)

lemma run_Cons: "run (x # xs) s = run xs (cache_step x s)"
  by (simp add: run_def)

lemma run_Nil: "run [] s = s"
  by (simp add: run_def)

lemma run_append: "run (xs @ ys) s = run ys (run xs s)"
  by (simp add: run_def)

lemma cache_inv_run: "cache_inv s \<Longrightarrow> cache_inv (run xs s)"
  by (induction xs arbitrary: s) (simp_all add: run_Nil run_Cons cache_inv_step)

lemma seen_run: "seen s \<subseteq> seen (run xs s)"
proof (induction xs arbitrary: s)
  case Nil
  show ?case by (simp add: run_Nil)
next
  case (Cons x xs)
  have "seen s \<subseteq> seen (cache_step x s)" by (rule seen_step)
  also have "\<dots> \<subseteq> seen (run xs (cache_step x s))" by (rule Cons.IH)
  finally show ?case by (simp add: run_Cons)
qed

lemma primeCache_with_cases [consumes 1, case_names full stopped turn]:
  assumes "primeCache_with fetcher s e = Some (s', e')"
    and "\<And>s e. \<not> length (cache s) < 4 \<Longrightarrow> P s e s e"
    and "\<And>s e f e1. length (cache s) < 4 \<Longrightarrow> fetcher e = (f, e1) \<Longrightarrow> falsy f \<Longrightarrow> P s e s e1"
    and "\<And>s e t e1 s' e'. length (cache s) < 4 \<Longrightarrow> fetcher e = (Some t, e1) \<Longrightarrow> t \<noteq> [] \<Longrightarrow>
           P (enqueue t s) e1 s' e' \<Longrightarrow> P s e s' e'"
  shows "P s e s' e'"
proof -
  have "fetcher = fetcher \<longrightarrow> P s e (fst (s', e')) (snd (s', e'))"
  proof (rule primeCache_with.raw_induct
      [where P = "\<lambda>g s e y. g = fetcher \<longrightarrow> P s e (fst y) (snd y)", OF _ assms(1)], goal_cases)
    case (1 pc g s e y)
    show ?case
    proof
      assume g: "g = fetcher"
      show "P s e (fst y) (snd y)"
      proof (cases "length (cache s) < 4")
        case False
        with 1(2) have "y = (s, e)" by simp
        with False assms(2) show ?thesis by simp
      next
        case True
        obtain f e1 where fe: "fetcher e = (f, e1)" by (cases "fetcher e")
        show ?thesis
        proof (cases "falsy f")
          case True
          with 1(2) \<open>length (cache s) < 4\<close> fe g have "y = (s, e1)"
            by (auto simp: falsy_def split: option.splits if_splits)
          with assms(3) [OF \<open>length (cache s) < 4\<close> fe True] show ?thesis by simp
        next
          case False
          then obtain t where t: "f = Some t" "t \<noteq> []"
            by (auto simp: falsy_def split: option.splits)
          with 1(2) \<open>length (cache s) < 4\<close> fe g have "pc fetcher (enqueue t s) e1 = Some y"
            by simp
          then have "P (enqueue t s) e1 (fst y) (snd y)"
            using 1(1) by blast
          with assms(4) \<open>length (cache s) < 4\<close> fe t show ?thesis by blast
        qed
      qed
    qed
  qed
  then show ?thesis by simp
qed

lemma primeCache_with_run:
  assumes "primeCache_with fetcher s e = Some (s', e')"
  shows "\<exists>fs. s' = run (map Refilled fs) s"
  using assms
proof (induct rule: primeCache_with_cases)
  case (full s e)
  have "s = run (map Refilled []) s" by (simp add: run_Nil)
  then show ?case by blast
next
  case (stopped s e f e1)
  have "s = run (map Refilled []) s" by (simp add: run_Nil)
  then show ?case by blast
next
  case (turn s e t e1 s' e')
  then obtain fs where "s' = run (map Refilled fs) (enqueue t s)" by blast
  with turn(3) have "s' = run (map Refilled (Some t # fs)) s"
    by (simp add: run_Cons refill_def)
  then show ?case by blast
qed

lemma primeCache_with_full:
  "4 \<le> length (cache s) \<Longrightarrow> primeCache_with fetcher s e = Some (s, e)"
  by (subst primeCache_with.simps) simp

lemma primeCache_with_stopped:
  "length (cache s) < 4 \<Longrightarrow> falsy (fst (fetcher e)) \<Longrightarrow>
   primeCache_with fetcher s e = Some (s, snd (fetcher e))"
  by (subst primeCache_with.simps)
     (auto simp: falsy_def split: prod.splits option.splits)

lemma primeCache_with_turn:
  "length (cache s) < 4 \<Longrightarrow> fst (fetcher e) = Some t \<Longrightarrow> t \<noteq> [] \<Longrightarrow>
   primeCache_with fetcher s e = primeCache_with fetcher (enqueue t s) (snd (fetcher e))"
  by (subst primeCache_with.simps) (auto split: prod.splits)

lemma primeCache_with_stops:
  assumes "primeCache_with fetcher s e = Some (s', e')"
  shows "4 \<le> length (cache s') \<or> (\<exists>e0. falsy (fst (fetcher e0)) \<and> e' = snd (fetcher e0))"
  using assms
proof (induct rule: primeCache_with_cases)
  case (full s e)
  then show ?case by simp
next
  case (stopped s e f e1)
  then have "falsy (fst (fetcher e)) \<and> e1 = snd (fetcher e)" by simp
  then show ?case by blast
next
  case (turn s e t e1 s' e')
  then show ?case by simp
qed

lemma primeCache_with_bound:
  assumes "primeCache_with fetcher s e = Some (s', e')"
  shows "length (cache s') \<le> max 4 (length (cache s))"
  using assms
proof (induct rule: primeCache_with_cases)
  case (turn s e t e1 s' e')
  have "length (cache (enqueue t s)) \<le> Suc (length (cache s))"
    by (simp add: enqueue_def)
  with turn show ?case by simp
qed simp_all

lemma primeCache_with_added:
  assumes "primeCache_with fetcher s e = Some (s', e')"
  shows "\<exists>added. cache s' = cache s @ added \<and> seen s' = seen s \<union> set added \<and>
           set added \<inter> seen s = {} \<and> distinct added \<and> [] \<notin> set added"
  using assms
proof (induct rule: primeCache_with_cases)
  case (full s e)
  have "cache s = cache s @ [] \<and> seen s = seen s \<union> set [] \<and>
           set [] \<inter> seen s = {} \<and> distinct ([] :: string list) \<and> [] \<notin> set ([] :: string list)"
    by simp
  then show ?case by blast
next
  case (stopped s e f e1)
  have "cache s = cache s @ [] \<and> seen s = seen s \<union> set [] \<and>
           set [] \<inter> seen s = {} \<and> distinct ([] :: string list) \<and> [] \<notin> set ([] :: string list)"
    by simp
  then show ?case by blast
next
  case (turn s e t e1 s' e')
  then obtain added where a: "cache s' = cache (enqueue t s) @ added"
    "seen s' = seen (enqueue t s) \<union> set added" "set added \<inter> seen (enqueue t s) = {}"
    "distinct added" "[] \<notin> set added"
    by blast
  show ?case
  proof (cases "t \<in> seen s")
    case True
    then have "enqueue t s = s" by (simp add: enqueue_def)
    with a show ?thesis by auto
  next
    case False
    then have "cache (enqueue t s) = cache s @ [t]" "seen (enqueue t s) = insert t (seen s)"
      by (simp_all add: enqueue_def)
    with a False turn(3) have "cache s' = cache s @ (t # added) \<and>
        seen s' = seen s \<union> set (t # added) \<and> set (t # added) \<inter> seen s = {} \<and>
        distinct (t # added) \<and> [] \<notin> set (t # added)"
      by auto
    then show ?thesis by blast
  qed
qed

lemma enqueue_frame:
  "fact (enqueue t s) = fact s" "busy (enqueue t s) = busy s" "taps (enqueue t s) = taps s"
  "limitUntil (enqueue t s) = limitUntil s" "showLimit (enqueue t s) = showLimit s"
  by (simp_all add: enqueue_def)

lemma primeCache_with_frame:
  assumes "primeCache_with fetcher s e = Some (s', e')"
  shows "fact s' = fact s \<and> busy s' = busy s \<and> taps s' = taps s \<and>
         limitUntil s' = limitUntil s \<and> showLimit s' = showLimit s"
  using assms
  by (induct rule: primeCache_with_cases) (simp_all add: enqueue_frame)

lemma getNextFact_cache:
  "cache (fst (snd (getNextFact s e))) = cache (snd (shift s))"
  "seen (fst (snd (getNextFact s e))) = seen s"
  by (auto simp: getNextFact_def shift_def split: prod.splits sum.splits list.splits)

text \<open>
  Claim C5. From a state where the queue lies within the seen-set and has no text twice
  (as in the initial state), every sequence of refill turns and shifts leads to such a
  state again, and the seen-set only grows, so its size never decreases. The loop of
  \<^verbatim>\<open>primeCache\<close>, when it returns, was such a sequence of refill turns, and
  \<^verbatim>\<open>getNextFact\<close> does to the queue and the seen-set what one shift does.
\<close>

theorem cache_sessions:
  assumes "cache_inv s"
  shows "set (cache (run ops s)) \<subseteq> seen (run ops s) \<and>
         distinct (cache (run ops s)) \<and>
         seen s \<subseteq> seen (run ops s) \<and>
         card (seen s) \<le> card (seen (run ops s)) \<and>
         cache_inv (run ops s) \<and>
         cache_inv initial_app \<and>
         (primeCache_with fetcher s e = Some (s', e') \<longrightarrow> (\<exists>fs. s' = run (map Refilled fs) s)) \<and>
         cache (fst (snd (getNextFact s e))) = cache (run [Shifted] s) \<and>
         seen (fst (snd (getNextFact s e))) = seen (run [Shifted] s)"
proof -
  have inv: "cache_inv (run ops s)" using assms by (rule cache_inv_run)
  have sub: "seen s \<subseteq> seen (run ops s)" by (rule seen_run)
  have "finite (seen (run ops s))" using inv by (simp add: cache_inv_def)
  with sub have card: "card (seen s) \<le> card (seen (run ops s))" by (intro card_mono)
  have pc: "primeCache_with fetcher s e = Some (s', e') \<longrightarrow> (\<exists>fs. s' = run (map Refilled fs) s)"
    using primeCache_with_run [of fetcher s e s' e'] by simp
  have g: "cache (fst (snd (getNextFact s e))) = cache (run [Shifted] s)"
    "seen (fst (snd (getNextFact s e))) = seen (run [Shifted] s)"
    by (simp_all add: getNextFact_cache run_Cons run_Nil shift_def split: list.splits)
  from inv sub card pc g cache_inv_initial show ?thesis
    by (simp add: cache_inv_def)
qed


lemma offline_fails: "textOf (net offline k) = None"
  by (simp add: offline_def net_serving)

lemma fetchWithRetry_offline: "fst (fetchWithRetry offline) = None"
  by (simp add: fetchWithRetry_exhausted offline_fails)

theorem cache_sessions_witness:
  "cache_inv initial_app \<and>
   cache (run [Refilled (Some ''a''), Refilled (Some ''a''), Refilled (Some ''b''), Shifted]
            initial_app) = [''b''] \<and>
   seen (run [Refilled (Some ''a''), Refilled (Some ''a''), Refilled (Some ''b''), Shifted]
            initial_app) = {''a'', ''b''} \<and>
   primeCache_with fetchWithRetry initial_app offline =
     Some (initial_app, snd (fetchWithRetry offline)) \<and>
   initial_app = run (map Refilled []) initial_app"
proof -
  have p: "primeCache_with fetchWithRetry initial_app offline =
     Some (initial_app, snd (fetchWithRetry offline))"
    by (rule primeCache_with_stopped)
       (simp_all add: initial_app_def fetchWithRetry_offline falsy_def)
  have r: "run [Refilled (Some ''a''), Refilled (Some ''a''), Refilled (Some ''b''), Shifted]
            initial_app =
        initial_app\<lparr>cache := [''b''], seen := {''a'', ''b''}\<rparr>"
    by (simp add: run_def refill_def enqueue_def shift_def initial_app_def insert_commute)
  show ?thesis
    using cache_sessions [OF cache_inv_initial,
        of "[Refilled (Some ''a''), Refilled (Some ''a''), Refilled (Some ''b''), Shifted]"
           fetchWithRetry offline initial_app "snd (fetchWithRetry offline)"] p r
    by (simp add: run_def)
qed

text \<open>
  Claim C6. \<^verbatim>\<open>primeCache\<close> with a queue of four or more returns at once without a
  request; with a shorter queue it calls \<^verbatim>\<open>fetchWithRetry\<close>, stops at once with the state
  unchanged when that returns \<^verbatim>\<open>null\<close>, pushes the fact and adds it to the seen-set when
  it is not in the seen-set, and leaves the state unchanged when it is, going on with the
  next call of \<^verbatim>\<open>fetchWithRetry\<close> in both cases (the queue does not grow by a duplicate).
  When it returns, the queue has reached four or the last \<^verbatim>\<open>fetchWithRetry\<close> returned
  \<^verbatim>\<open>null\<close>; a queue shorter than four never grows beyond four in a refill that runs
  alone; and the facts added are distinct, were not in the seen-set, and are what the
  seen-set gained.
\<close>

theorem primeCache_refill:
  "primeCache = primeCache_with fetchWithRetry \<and>
   primeCache_jitter = primeCache_with fetchWithRetry_jitter \<and>
   (4 \<le> length (cache s) \<longrightarrow> primeCache_with fetcher s e = Some (s, e)) \<and>
   (length (cache s) < 4 \<and> falsy (fst (fetcher e)) \<longrightarrow>
      primeCache_with fetcher s e = Some (s, snd (fetcher e))) \<and>
   (length (cache s) < 4 \<and> fst (fetcher e) = Some t \<and> t \<noteq> [] \<and> t \<notin> seen s \<longrightarrow>
      primeCache_with fetcher s e =
      primeCache_with fetcher (s\<lparr>cache := cache s @ [t], seen := insert t (seen s)\<rparr>)
        (snd (fetcher e))) \<and>
   (length (cache s) < 4 \<and> fst (fetcher e) = Some t \<and> t \<noteq> [] \<and> t \<in> seen s \<longrightarrow>
      primeCache_with fetcher s e = primeCache_with fetcher s (snd (fetcher e))) \<and>
   (primeCache_with fetcher s e = Some (s', e') \<longrightarrow>
      (4 \<le> length (cache s') \<or> (\<exists>e0. falsy (fst (fetcher e0)) \<and> e' = snd (fetcher e0))) \<and>
      length (cache s') \<le> max 4 (length (cache s)) \<and>
      (\<exists>added. cache s' = cache s @ added \<and> seen s' = seen s \<union> set added \<and>
         set added \<inter> seen s = {} \<and> distinct added \<and> [] \<notin> set added))"
proof (intro conjI impI)
  show "primeCache = primeCache_with fetchWithRetry"
    by (simp add: primeCache_def)
  show "primeCache_jitter = primeCache_with fetchWithRetry_jitter"
    by (simp add: primeCache_jitter_def)
next
  assume "4 \<le> length (cache s)"
  then show "primeCache_with fetcher s e = Some (s, e)"
    by (rule primeCache_with_full)
next
  assume "length (cache s) < 4 \<and> falsy (fst (fetcher e))"
  then show "primeCache_with fetcher s e = Some (s, snd (fetcher e))"
    by (simp add: primeCache_with_stopped)
next
  assume "length (cache s) < 4 \<and> fst (fetcher e) = Some t \<and> t \<noteq> [] \<and> t \<notin> seen s"
  then show "primeCache_with fetcher s e =
      primeCache_with fetcher (s\<lparr>cache := cache s @ [t], seen := insert t (seen s)\<rparr>)
        (snd (fetcher e))"
    using primeCache_with_turn [of s fetcher e t] by (simp add: enqueue_def)
next
  assume "length (cache s) < 4 \<and> fst (fetcher e) = Some t \<and> t \<noteq> [] \<and> t \<in> seen s"
  then show "primeCache_with fetcher s e = primeCache_with fetcher s (snd (fetcher e))"
    using primeCache_with_turn [of s fetcher e t] by (simp add: enqueue_def)
next
  assume r: "primeCache_with fetcher s e = Some (s', e')"
  then show "4 \<le> length (cache s') \<or> (\<exists>e0. falsy (fst (fetcher e0)) \<and> e' = snd (fetcher e0))"
    by (rule primeCache_with_stops)
  from r show "length (cache s') \<le> max 4 (length (cache s))"
    by (rule primeCache_with_bound)
  from r show "\<exists>added. cache s' = cache s @ added \<and> seen s' = seen s \<union> set added \<and>
         set added \<inter> seen s = {} \<and> distinct added \<and> [] \<notin> set added"
    by (rule primeCache_with_added)
qed


lemma primeCache_example:
  "primeCache initial_app (serving [''A'', ''a'', ''b'', ''c'', ''d'']) =
   Some (initial_app\<lparr>cache := [''a'', ''b'', ''c'', ''d''], seen := {''a'', ''b'', ''c'', ''d''}\<rparr>,
         serving [''A'', ''a'', ''b'', ''c'', ''d'']\<lparr>fetched := 5\<rparr>)"
  by (simp add: primeCache_def primeCache_with.simps fetchWithRetry_unfold initial_app_def
      net_serving serving_fields textOf_answer toLowerCase_def enqueue_def insert_commute)


theorem primeCache_refill_witness:
  "primeCache_with fetchWithRetry (initial_app\<lparr>cache := [''a'', ''b'', ''c'', ''d'']\<rparr>) offline =
     Some (initial_app\<lparr>cache := [''a'', ''b'', ''c'', ''d'']\<rparr>, offline) \<and>
   primeCache_with fetchWithRetry initial_app offline =
     Some (initial_app, snd (fetchWithRetry offline)) \<and>
   primeCache_with fetchWithRetry initial_app (serving [''A'']) =
     primeCache_with fetchWithRetry (initial_app\<lparr>cache := [''a''], seen := {''a''}\<rparr>)
       (snd (fetchWithRetry (serving [''A'']))) \<and>
   primeCache_with fetchWithRetry (initial_app\<lparr>seen := {''a''}\<rparr>) (serving [''A'']) =
     primeCache_with fetchWithRetry (initial_app\<lparr>seen := {''a''}\<rparr>)
       (snd (fetchWithRetry (serving [''A'']))) \<and>
   primeCache initial_app (serving [''A'', ''a'', ''b'', ''c'', ''d'']) =
     Some (initial_app\<lparr>cache := [''a'', ''b'', ''c'', ''d''], seen := {''a'', ''b'', ''c'', ''d''}\<rparr>,
           serving [''A'', ''a'', ''b'', ''c'', ''d'']\<lparr>fetched := 5\<rparr>) \<and>
   (\<exists>added. [''a'', ''b'', ''c'', ''d''] = [] @ added \<and> distinct added)"
proof -
  have f: "fst (fetchWithRetry (serving [''A''])) = Some ''a''"
    by (simp add: fetchWithRetry_unfold net_serving serving_fields textOf_answer toLowerCase_def)
  note ex = primeCache_example [unfolded primeCache_def]
  show ?thesis
    using primeCache_refill [where s = "initial_app\<lparr>cache := [''a'', ''b'', ''c'', ''d'']\<rparr>"
        and fetcher = fetchWithRetry and e = offline]
      primeCache_refill [where s = initial_app and fetcher = fetchWithRetry and e = offline]
      primeCache_refill [where s = initial_app and fetcher = fetchWithRetry
        and e = "serving [''A'']" and t = "''a''"]
      primeCache_refill [where s = "initial_app\<lparr>seen := {''a''}\<rparr>" and fetcher = fetchWithRetry
        and e = "serving [''A'']" and t = "''a''"]
      primeCache_refill [where s = initial_app and fetcher = fetchWithRetry
        and e = "serving [''A'', ''a'', ''b'', ''c'', ''d'']"
        and s' = "initial_app\<lparr>cache := [''a'', ''b'', ''c'', ''d''],
                    seen := {''a'', ''b'', ''c'', ''d''}\<rparr>"
        and e' = "serving [''A'', ''a'', ''b'', ''c'', ''d'']\<lparr>fetched := 5\<rparr>"]
      f ex
    by (simp add: initial_app_def fetchWithRetry_offline falsy_def primeCache_example)
qed

subsection \<open>\<^verbatim>\<open>getNextFact\<close>\<close>


lemma FALLBACK_length: "length FALLBACK = 5"
  by (simp add: FALLBACK_def)

lemma FALLBACK_entries: "i < 5 \<Longrightarrow> FALLBACK ! i \<noteq> []"
proof -
  assume "i < 5"
  then have "FALLBACK ! i \<in> set FALLBACK" by (simp add: FALLBACK_length)
  moreover have "[] \<notin> set FALLBACK" by (simp add: FALLBACK_def)
  ultimately show ?thesis by metis
qed

lemma fallback_index:
  assumes "0 \<le> r" "r < 1"
  shows "0 \<le> \<lfloor>r * 5\<rfloor>" "\<lfloor>r * 5\<rfloor> < 5"
proof -
  from assms(1) have "0 \<le> r * 5" by simp
  then show "0 \<le> \<lfloor>r * 5\<rfloor>" by simp
  from assms(2) have "r * 5 < 5" by simp
  then show "\<lfloor>r * 5\<rfloor> < 5" by (simp add: floor_less_iff)
qed

lemma fallback_uniform:
  assumes "0 \<le> r"
  shows "nat \<lfloor>r * 5\<rfloor> = i \<longleftrightarrow> real i / 5 \<le> r \<and> r < (real i + 1) / 5"
proof -
  from assms have nn: "0 \<le> \<lfloor>r * 5\<rfloor>" by simp
  have "nat \<lfloor>r * 5\<rfloor> = i \<longleftrightarrow> \<lfloor>r * 5\<rfloor> = int i"
    using nn by auto
  also have "\<dots> \<longleftrightarrow> real_of_int (int i) \<le> r * 5 \<and> r * 5 < real_of_int (int i) + 1"
    by (rule floor_eq_iff)
  also have "\<dots> \<longleftrightarrow> real i / 5 \<le> r \<and> r < (real i + 1) / 5"
    by (simp add: field_simps)
  finally show ?thesis .
qed

lemma pickFallback_ok:
  assumes "0 \<le> rand e (drawn e)" "rand e (drawn e) < 1"
  shows "pickFallback e =
         (Inr (toLowerCase (FALLBACK ! nat \<lfloor>rand e (drawn e) * 5\<rfloor>)), e\<lparr>drawn := Suc (drawn e)\<rparr>)"
  using fallback_index [OF assms]
  by (simp add: pickFallback_def random_def FALLBACK_length Let_def)

lemma toLowerCase_nonempty: "toLowerCase t = [] \<longleftrightarrow> t = []"
  by (simp add: toLowerCase_def)

lemma getNextFact_cached:
  assumes "cache s = h # rest" "h \<noteq> []"
  shows "getNextFact s e = (None, s\<lparr>cache := rest, fact := h, busy := False\<rparr>, e)"
  using assms
  by (simp add: getNextFact_def shift_def orFetch_def orFallback_def falsy_def)

lemma getNextFact_fetched:
  assumes "cache s = []" "fst (fetchWithRetry e) = Some t"
  shows "getNextFact s e = (None, s\<lparr>fact := t, busy := False\<rparr>, snd (fetchWithRetry e))"
proof -
  from assms(2) have "t \<noteq> []" by (rule fetchWithRetry_nonempty)
  with assms show ?thesis
    by (cases "fetchWithRetry e")
       (simp add: getNextFact_def shift_def orFetch_def orFallback_def falsy_def)
qed

lemma getNextFact_fallback:
  assumes "cache s = []" "fst (fetchWithRetry e) = None"
    and "0 \<le> rand e (drawn e)" "rand e (drawn e) < 1"
  shows "getNextFact s e =
     (None, s\<lparr>fact := toLowerCase (FALLBACK ! nat \<lfloor>rand e (drawn e) * 5\<rfloor>), busy := False\<rparr>,
      snd (fetchWithRetry e)\<lparr>drawn := Suc (drawn e)\<rparr>)"
proof -
  obtain e1 where fe: "fetchWithRetry e = (None, e1)"
    using assms(2) by (cases "fetchWithRetry e") simp
  have d: "drawn e1 = drawn e" "rand e1 = rand e"
    using fetchWithRetry_drawn [of e] by (simp_all add: fe)
  have "pickFallback e1 =
         (Inr (toLowerCase (FALLBACK ! nat \<lfloor>rand e1 (drawn e1) * 5\<rfloor>)), e1\<lparr>drawn := Suc (drawn e1)\<rparr>)"
    using assms(3,4) by (intro pickFallback_ok) (simp_all add: d)
  with assms(1) show ?thesis
    by (simp add: getNextFact_def shift_def orFetch_def orFallback_def falsy_def fe d)
qed


lemma nonempty_step: "[] \<notin> set (cache s) \<Longrightarrow> [] \<notin> set (cache (cache_step x s))"
  by (cases x) (auto simp: refill_def enqueue_def shift_def split: option.splits list.splits)

lemma nonempty_run: "[] \<notin> set (cache s) \<Longrightarrow> [] \<notin> set (cache (run ops s))"
  by (induction ops arbitrary: s) (simp_all add: run_Nil run_Cons nonempty_step)

text \<open>
  Claim C1. In a state whose queue holds no empty text (every state the sessions reach),
  and with \<^verbatim>\<open>Math.random()\<close> in \<open>[0, 1)\<close>, \<^verbatim>\<open>getNextFact\<close> never rejects, whatever the
  network does, and publishes a non-empty string: the head of the queue when the queue is
  not empty, else what \<^verbatim>\<open>fetchWithRetry\<close> returns when that is not \<^verbatim>\<open>null\<close>, else the
  entry of the non-empty \<open>FALLBACK\<close> at the index \<open>\<lfloor>r * length FALLBACK\<rfloor>\<close>, which is within
  the list; each index \<open>i\<close> is chosen on the interval \<open>[i / 5, (i + 1) / 5)\<close> of \<open>r\<close>, all
  of one length.
\<close>

theorem getNextFact_publishes:
  assumes "[] \<notin> set (cache s)" and "\<forall>k. 0 \<le> rand e k \<and> rand e k < 1"
  shows "fst (getNextFact s e) = None \<and>
         fact (fst (snd (getNextFact s e))) \<noteq> [] \<and>
         (cache s = h # rest \<longrightarrow> fact (fst (snd (getNextFact s e))) = h) \<and>
         (cache s = [] \<and> fst (fetchWithRetry e) = Some t \<longrightarrow>
            fact (fst (snd (getNextFact s e))) = t) \<and>
         (cache s = [] \<and> fst (fetchWithRetry e) = None \<longrightarrow>
            nat \<lfloor>rand e (drawn e) * real (length FALLBACK)\<rfloor> < length FALLBACK \<and>
            fact (fst (snd (getNextFact s e))) =
              toLowerCase (FALLBACK ! nat \<lfloor>rand e (drawn e) * real (length FALLBACK)\<rfloor>)) \<and>
         FALLBACK \<noteq> [] \<and>
         (nat \<lfloor>rand e (drawn e) * real (length FALLBACK)\<rfloor> = i \<longleftrightarrow>
            real i / real (length FALLBACK) \<le> rand e (drawn e) \<and>
            rand e (drawn e) < (real i + 1) / real (length FALLBACK)) \<and>
         [] \<notin> set (cache initial_app) \<and>
         [] \<notin> set (cache (run ops s))"
proof -
  let ?r = "rand e (drawn e)"
  let ?s' = "fst (snd (getNextFact s e))"
  from assms(2) have r: "0 \<le> ?r" "?r < 1" by simp_all
  have idx: "nat \<lfloor>?r * 5\<rfloor> < 5" using fallback_index [OF r] by linarith
  have hd: "fst (getNextFact s e) = None \<and> ?s' = s\<lparr>cache := rest, fact := h, busy := False\<rparr>"
    if "cache s = h # rest" for h rest
  proof -
    from that assms(1) have "h \<noteq> []" by auto
    with that show ?thesis by (simp add: getNextFact_cached)
  qed
  have ft: "fst (getNextFact s e) = None \<and> ?s' = s\<lparr>fact := t, busy := False\<rparr>"
    if "cache s = []" "fst (fetchWithRetry e) = Some t" for t
    using that by (simp add: getNextFact_fetched)
  have fb: "fst (getNextFact s e) = None \<and>
            ?s' = s\<lparr>fact := toLowerCase (FALLBACK ! nat \<lfloor>?r * 5\<rfloor>), busy := False\<rparr>"
    if "cache s = []" "fst (fetchWithRetry e) = None"
    using that r by (simp add: getNextFact_fallback)
  have c1: "fst (getNextFact s e) = None \<and> fact ?s' \<noteq> []"
  proof (cases "cache s")
    case (Cons h rest)
    with assms(1) have "h \<noteq> []" by auto
    with hd [OF Cons] show ?thesis by simp
  next
    case Nil
    show ?thesis
    proof (cases "fst (fetchWithRetry e)")
      case None
      from idx have "FALLBACK ! nat \<lfloor>?r * 5\<rfloor> \<noteq> []" by (rule FALLBACK_entries)
      with fb [OF Nil None] show ?thesis by (simp add: toLowerCase_nonempty)
    next
      case (Some t)
      then have "t \<noteq> []" by (rule fetchWithRetry_nonempty)
      with ft [OF Nil Some] show ?thesis by simp
    qed
  qed
  have c3: "cache s = h # rest \<longrightarrow> fact ?s' = h"
    using hd by simp
  have c4: "cache s = [] \<and> fst (fetchWithRetry e) = Some t \<longrightarrow> fact ?s' = t"
    using ft by simp
  have c5: "cache s = [] \<and> fst (fetchWithRetry e) = None \<longrightarrow>
            nat \<lfloor>?r * real (length FALLBACK)\<rfloor> < length FALLBACK \<and>
            fact ?s' = toLowerCase (FALLBACK ! nat \<lfloor>?r * real (length FALLBACK)\<rfloor>)"
    using fb idx by (simp add: FALLBACK_length)
  have c6: "FALLBACK \<noteq> []" by (simp add: FALLBACK_def)
  have c7: "nat \<lfloor>?r * real (length FALLBACK)\<rfloor> = i \<longleftrightarrow>
            real i / real (length FALLBACK) \<le> ?r \<and> ?r < (real i + 1) / real (length FALLBACK)"
    using fallback_uniform [OF r(1), of i] by (simp add: FALLBACK_length)
  have c8: "[] \<notin> set (cache initial_app)" by (simp add: initial_app_def)
  have c9: "[] \<notin> set (cache (run ops s))" using assms(1) by (rule nonempty_run)
  from c1 c3 c4 c5 c6 c7 c8 c9 show ?thesis by blast
qed


lemma fetchWithRetry_serving_A: "fst (fetchWithRetry (serving [''A''])) = Some ''a''"
  by (simp add: fetchWithRetry_unfold net_serving serving_fields textOf_answer toLowerCase_def)

theorem getNextFact_publishes_witness:
  "fact (fst (snd (getNextFact (initial_app\<lparr>cache := [''fact-a'', ''fact-b'']\<rparr>) offline))) =
     ''fact-a'' \<and>
   fact (fst (snd (getNextFact initial_app (serving [''A''])))) = ''a'' \<and>
   fst (getNextFact initial_app offline) = None \<and>
   fact (fst (snd (getNextFact initial_app offline))) = ''sharks existed before trees.''"
  using getNextFact_publishes [where s = "initial_app\<lparr>cache := [''fact-a'', ''fact-b'']\<rparr>"
      and e = offline and h = "''fact-a''" and rest = "[''fact-b'']"]
    getNextFact_publishes [where s = initial_app and e = "serving [''A'']" and t = "''a''"]
    getNextFact_publishes [where s = initial_app and e = offline]
  by (simp add: initial_app_def offline_def serving_fields fetchWithRetry_serving_A
      fetchWithRetry_offline [unfolded offline_def] FALLBACK_def toLowerCase_def)

text \<open>
  Claim C7. With a non-empty queue (of non-empty texts) \<^verbatim>\<open>getNextFact\<close> publishes the head
  of the queue, the entry pushed first since pushes go to the end, and leaves the
  environment as it was: no request, no wait, no random value. The requests that follow
  are those of the refill started after the fact was set.
\<close>

theorem getNextFact_from_cache:
  assumes "cache s = h # rest" and "[] \<notin> set (cache s)"
  shows "getNextFact s e = (None, s\<lparr>cache := rest, fact := h, busy := False\<rparr>, e) \<and>
         getNextFact_refill s e =
           (case primeCache (s\<lparr>cache := rest, fact := h, busy := False\<rparr>) e of
              None \<Rightarrow> None
            | Some (s2, e2) \<Rightarrow> Some (None, s2, e2)) \<and>
         cache (enqueue t s) = (if t \<in> seen s then h # rest else h # rest @ [t]) \<and>
         [] \<notin> set (cache (run ops s))"
proof -
  from assms have "h \<noteq> []" by auto
  with assms(1) have g: "getNextFact s e = (None, s\<lparr>cache := rest, fact := h, busy := False\<rparr>, e)"
    by (rule getNextFact_cached)
  then have "getNextFact_refill s e =
           (case primeCache (s\<lparr>cache := rest, fact := h, busy := False\<rparr>) e of
              None \<Rightarrow> None
            | Some (s2, e2) \<Rightarrow> Some (None, s2, e2))"
    by (simp add: getNextFact_refill_def)
  moreover have "cache (enqueue t s) = (if t \<in> seen s then h # rest else h # rest @ [t])"
    using assms(1) by (simp add: enqueue_def)
  moreover have "[] \<notin> set (cache (run ops s))" using assms(2) by (rule nonempty_run)
  ultimately show ?thesis using g by simp
qed

theorem getNextFact_from_cache_witness:
  "getNextFact (initial_app\<lparr>cache := [''fact-a'', ''fact-b'']\<rparr>) offline =
     (None, initial_app\<lparr>cache := [''fact-b''], fact := ''fact-a'', busy := False\<rparr>, offline) \<and>
   fetched (snd (snd (getNextFact (initial_app\<lparr>cache := [''fact-a'', ''fact-b'']\<rparr>) offline))) =
     fetched offline"
  using getNextFact_from_cache [where s = "initial_app\<lparr>cache := [''fact-a'', ''fact-b'']\<rparr>"
      and e = offline and h = "''fact-a''" and rest = "[''fact-b'']"]
  by simp

lemma initialLoad_limiter:
  "initialLoad (s\<lparr>taps := ts, limitUntil := l, showLimit := b\<rparr>) e =
     (case initialLoad s e of
        (err, s1, e1) \<Rightarrow> (err, s1\<lparr>taps := ts, limitUntil := l, showLimit := b\<rparr>, e1))"
  by (simp add: initialLoad_def Let_def split: prod.splits sum.splits)

lemma initialLoad_frame:
  "taps (fst (snd (initialLoad s e))) = taps s"
  "limitUntil (fst (snd (initialLoad s e))) = limitUntil s"
  "showLimit (fst (snd (initialLoad s e))) = showLimit s"
  "seen (fst (snd (initialLoad s e))) = seen s"
  "cache (fst (snd (initialLoad s e))) = cache s"
  by (simp_all add: initialLoad_def Let_def split: prod.splits sum.splits)

lemma getNextFact_frame:
  "taps (fst (snd (getNextFact s e))) = taps s"
  "limitUntil (fst (snd (getNextFact s e))) = limitUntil s"
  "showLimit (fst (snd (getNextFact s e))) = showLimit s"
  by (auto simp: getNextFact_def shift_def split: prod.splits sum.splits list.splits)

lemma fetchWithRetry_fetched:
  "fetched e < fetched (snd (fetchWithRetry e))"
  "fetched (snd (fetchWithRetry e)) \<le> fetched e + 3"
  by (simp_all add: fetchWithRetry_unfold split: option.splits)

lemma initialLoad_fetched_text:
  assumes "fst (fetchWithRetry e) = Some t"
  shows "initialLoad s e = (None, s\<lparr>fact := t, busy := False\<rparr>, snd (fetchWithRetry e))"
proof -
  from assms have "t \<noteq> []" by (rule fetchWithRetry_nonempty)
  with assms show ?thesis
    by (cases "fetchWithRetry e") (simp add: initialLoad_def orFallback_def Let_def)
qed

lemma initialLoad_fallback:
  assumes "fst (fetchWithRetry e) = None"
    and "0 \<le> rand e (drawn e)" "rand e (drawn e) < 1"
  shows "initialLoad s e =
     (None, s\<lparr>fact := toLowerCase (FALLBACK ! nat \<lfloor>rand e (drawn e) * 5\<rfloor>), busy := False\<rparr>,
      snd (fetchWithRetry e)\<lparr>drawn := Suc (drawn e)\<rparr>)"
proof -
  obtain e1 where fe: "fetchWithRetry e = (None, e1)"
    using assms(1) by (cases "fetchWithRetry e") simp
  have d: "drawn e1 = drawn e" "rand e1 = rand e"
    using fetchWithRetry_drawn [of e] by (simp_all add: fe)
  have "pickFallback e1 =
         (Inr (toLowerCase (FALLBACK ! nat \<lfloor>rand e1 (drawn e1) * 5\<rfloor>)), e1\<lparr>drawn := Suc (drawn e1)\<rparr>)"
    using assms(2,3) by (intro pickFallback_ok) (simp_all add: d)
  then show ?thesis
    by (simp add: initialLoad_def orFallback_def Let_def fe d)
qed

lemma pickFallback_fetched: "fetched (snd (pickFallback e)) = fetched e"
  by (simp add: pickFallback_def random_def Let_def)

lemma initialLoad_requests:
  "fetched (snd (snd (initialLoad s e))) = fetched (snd (fetchWithRetry e))"
proof -
  obtain f e1 where fe: "fetchWithRetry e = (f, e1)" by (cases "fetchWithRetry e")
  have "fetched (snd (orFallback f e1)) = fetched e1"
    by (simp add: orFallback_def pickFallback_fetched split: option.splits)
  then show ?thesis
    by (cases "orFallback f e1") (auto simp: initialLoad_def Let_def fe split: sum.splits)
qed

lemma initialLoad_fires:
  assumes "0 \<le> rand e (drawn e)" "rand e (drawn e) < 1"
  shows "fst (initialLoad s e) = None"
    and "fact (fst (snd (initialLoad s e))) \<noteq> []"
    and "fst (fetchWithRetry e) = Some t \<longrightarrow> fact (fst (snd (initialLoad s e))) = t"
    and "fst (fetchWithRetry e) = None \<longrightarrow>
           fact (fst (snd (initialLoad s e))) =
             toLowerCase (FALLBACK ! nat \<lfloor>rand e (drawn e) * real (length FALLBACK)\<rfloor>)"
proof -
  have idx: "nat \<lfloor>rand e (drawn e) * 5\<rfloor> < 5" using fallback_index [OF assms] by linarith
  then have ne: "toLowerCase (FALLBACK ! nat \<lfloor>rand e (drawn e) * 5\<rfloor>) \<noteq> []"
    by (simp add: toLowerCase_nonempty FALLBACK_entries)
  show "fst (initialLoad s e) = None"
    using assms by (cases "fst (fetchWithRetry e)")
      (simp_all add: initialLoad_fallback initialLoad_fetched_text)
  show "fact (fst (snd (initialLoad s e))) \<noteq> []"
  proof (cases "fst (fetchWithRetry e)")
    case None
    with assms ne show ?thesis by (simp add: initialLoad_fallback)
  next
    case (Some u)
    then have "u \<noteq> []" by (rule fetchWithRetry_nonempty)
    with Some show ?thesis by (simp add: initialLoad_fetched_text)
  qed
  show "fst (fetchWithRetry e) = Some t \<longrightarrow> fact (fst (snd (initialLoad s e))) = t"
    by (simp add: initialLoad_fetched_text)
  show "fst (fetchWithRetry e) = None \<longrightarrow>
           fact (fst (snd (initialLoad s e))) =
             toLowerCase (FALLBACK ! nat \<lfloor>rand e (drawn e) * real (length FALLBACK)\<rfloor>)"
    using assms by (simp add: initialLoad_fallback FALLBACK_length)
qed

text \<open>
  Claim C9. The initial load, a refill that returns and \<^verbatim>\<open>getNextFact\<close> itself leave the
  window of taps as it was. The initial load fires whatever the limiter's state is: for
  every window, \<open>limitUntil\<close> and \<open>showLimit\<close> it sends the requests of one
  \<^verbatim>\<open>fetchWithRetry\<close> (at least one), it does not reject, and it publishes the fetched text
  or, when there is none, an entry of the fallback list, with the same outcome as for any
  other state of the limiter. A press that is forwarded to \<^verbatim>\<open>getNextFact\<close> leaves the
  pruned window with its own time appended, and a press that is not forwarded adds no
  timestamp.
\<close>

theorem rate_window_frame:
  "taps (fst (snd (initialLoad s e))) = taps s \<and>
   limitUntil (fst (snd (initialLoad s e))) = limitUntil s \<and>
   initialLoad (s\<lparr>taps := ts, limitUntil := l, showLimit := b\<rparr>) e =
     (case initialLoad s e of
        (err, s1, e1) \<Rightarrow> (err, s1\<lparr>taps := ts, limitUntil := l, showLimit := b\<rparr>, e1)) \<and>
   (primeCache s e = Some (s', e') \<longrightarrow> taps s' = taps s \<and> limitUntil s' = limitUntil s) \<and>
   taps (fst (snd (getNextFact s e))) = taps s \<and>
   (fst (handlePress now1 now2 s e) \<longrightarrow>
      taps (fst (snd (snd (handlePress now1 now2 s e)))) =
        filter (\<lambda>t. now2 - t < WINDOW_MS) (taps s) @ [now2]) \<and>
   (\<not> fst (handlePress now1 now2 s e) \<longrightarrow>
      set (taps (fst (snd (snd (handlePress now1 now2 s e))))) \<subseteq> set (taps s)) \<and>
   fetched e < fetched (snd (snd (initialLoad (s\<lparr>taps := ts, limitUntil := l, showLimit := b\<rparr>) e))) \<and>
   fetched (snd (snd (initialLoad (s\<lparr>taps := ts, limitUntil := l, showLimit := b\<rparr>) e))) =
     fetched (snd (fetchWithRetry e)) \<and>
   (0 \<le> rand e (drawn e) \<and> rand e (drawn e) < 1 \<longrightarrow>
      fst (initialLoad (s\<lparr>taps := ts, limitUntil := l, showLimit := b\<rparr>) e) = None \<and>
      fact (fst (snd (initialLoad (s\<lparr>taps := ts, limitUntil := l, showLimit := b\<rparr>) e))) \<noteq> [] \<and>
      (fst (fetchWithRetry e) = Some t \<longrightarrow>
         fact (fst (snd (initialLoad (s\<lparr>taps := ts, limitUntil := l, showLimit := b\<rparr>) e))) = t) \<and>
      (fst (fetchWithRetry e) = None \<longrightarrow>
         fact (fst (snd (initialLoad (s\<lparr>taps := ts, limitUntil := l, showLimit := b\<rparr>) e))) =
           toLowerCase (FALLBACK ! nat \<lfloor>rand e (drawn e) * real (length FALLBACK)\<rfloor>)))"
proof -
  let ?s = "s\<lparr>taps := ts, limitUntil := l, showLimit := b\<rparr>"
  have pc: "primeCache s e = Some (s', e') \<longrightarrow> taps s' = taps s \<and> limitUntil s' = limitUntil s"
    using primeCache_with_frame [of fetchWithRetry s e s' e'] by (simp add: primeCache_def)
  have hp: "fst (handlePress now1 now2 s e) \<longrightarrow>
      taps (fst (snd (snd (handlePress now1 now2 s e)))) =
        filter (\<lambda>t. now2 - t < WINDOW_MS) (taps s) @ [now2]"
    by (auto simp: handlePress_def canTap_def Let_def getNextFact_frame
        split: option.splits if_splits)
  have hn: "\<not> fst (handlePress now1 now2 s e) \<longrightarrow>
      set (taps (fst (snd (snd (handlePress now1 now2 s e))))) \<subseteq> set (taps s)"
    by (auto simp: handlePress_def canTap_def Let_def split: option.splits if_splits)
  have frame: "taps (fst (snd (initialLoad s e))) = taps s \<and>
   limitUntil (fst (snd (initialLoad s e))) = limitUntil s \<and>
   initialLoad ?s e =
     (case initialLoad s e of
        (err, s1, e1) \<Rightarrow> (err, s1\<lparr>taps := ts, limitUntil := l, showLimit := b\<rparr>, e1)) \<and>
   taps (fst (snd (getNextFact s e))) = taps s"
    by (simp add: initialLoad_frame initialLoad_limiter getNextFact_frame)
  have rq: "fetched (snd (snd (initialLoad ?s e))) = fetched (snd (fetchWithRetry e))"
    by (rule initialLoad_requests)
  have lt: "fetched e < fetched (snd (snd (initialLoad ?s e)))"
    unfolding rq by (rule fetchWithRetry_fetched)
  have fires: "0 \<le> rand e (drawn e) \<and> rand e (drawn e) < 1 \<longrightarrow>
      fst (initialLoad ?s e) = None \<and>
      fact (fst (snd (initialLoad ?s e))) \<noteq> [] \<and>
      (fst (fetchWithRetry e) = Some t \<longrightarrow> fact (fst (snd (initialLoad ?s e))) = t) \<and>
      (fst (fetchWithRetry e) = None \<longrightarrow>
         fact (fst (snd (initialLoad ?s e))) =
           toLowerCase (FALLBACK ! nat \<lfloor>rand e (drawn e) * real (length FALLBACK)\<rfloor>))"
    using initialLoad_fires(1,2,4) [where e = e and s = ?s]
      initialLoad_fires(3) [where e = e and s = ?s and t = t]
    by blast
  from frame pc hp hn lt rq fires show ?thesis by blast
qed


lemma primeCache_with_seen:
  assumes "primeCache_with fetcher s e = Some (s', e')"
  shows "take (length (cache s)) (cache s') = cache s \<and>
         seen s' = seen s \<union> set (drop (length (cache s)) (cache s'))"
proof -
  from primeCache_with_added [OF assms] obtain added where
    "cache s' = cache s @ added" "seen s' = seen s \<union> set added"
    by blast
  then show ?thesis by simp
qed

lemmas run_defs =
  getNextFact_refill_def getNextFact_def shift_def orFetch_def orFallback_def falsy_def
  pickFallback_def random_def primeCache_def primeCache_with.simps fetchWithRetry_unfold
  initial_app_def net_serving serving_fields textOf_answer toLowerCase_def enqueue_def
  FALLBACK_def Let_def


theorem rate_window_frame_witness:
  "primeCache (initial_app\<lparr>taps := [1, 2]\<rparr>) offline =
     Some (initial_app\<lparr>taps := [1, 2]\<rparr>, snd (fetchWithRetry offline)) \<and>
   fst (handlePress 1000 1000 initial_app offline) \<and>
   taps (fst (snd (snd (handlePress 1000 1000 initial_app offline)))) = [1000] \<and>
   \<not> fst (handlePress 5000 5000 (initial_app\<lparr>taps := [0, 1000, 2000, 3000, 4000]\<rparr>) offline) \<and>
   set (taps (fst (snd (snd
     (handlePress 5000 5000 (initial_app\<lparr>taps := [0, 1000, 2000, 3000, 4000]\<rparr>) offline)))))
     \<subseteq> {0, 1000, 2000, 3000, 4000} \<and>
   fst (initialLoad (initial_app\<lparr>taps := [0, 1000, 2000, 3000, 4000],
                      limitUntil := Some 60000, showLimit := True\<rparr>) offline) = None \<and>
   fetched (snd (snd (initialLoad (initial_app\<lparr>taps := [0, 1000, 2000, 3000, 4000],
                      limitUntil := Some 60000, showLimit := True\<rparr>) offline))) = 3 \<and>
   fact (fst (snd (initialLoad (initial_app\<lparr>taps := [0, 1000, 2000, 3000, 4000],
                      limitUntil := Some 60000, showLimit := True\<rparr>) offline))) =
     ''sharks existed before trees.'' \<and>
   taps (fst (snd (initialLoad (initial_app\<lparr>taps := [0, 1000, 2000, 3000, 4000],
                      limitUntil := Some 60000, showLimit := True\<rparr>) offline))) =
     [0, 1000, 2000, 3000, 4000]"
proof -
  let ?full = "initial_app\<lparr>taps := [0, 1000, 2000, 3000, 4000],
                      limitUntil := Some 60000, showLimit := True\<rparr>"
  have p: "primeCache (initial_app\<lparr>taps := [1, 2]\<rparr>) offline =
     Some (initial_app\<lparr>taps := [1, 2]\<rparr>, snd (fetchWithRetry offline))"
    unfolding primeCache_def
    by (rule primeCache_with_stopped)
       (simp_all add: initial_app_def fetchWithRetry_offline falsy_def)
  have h1: "fst (handlePress 1000 1000 initial_app offline)"
    by (simp add: handlePress_def canTap_def initial_app_def MAX_PER_MINUTE_def Let_def)
  have h2: "\<not> fst (handlePress 5000 5000
      (initial_app\<lparr>taps := [0, 1000, 2000, 3000, 4000]\<rparr>) offline)"
    by (simp add: handlePress_def canTap_def initial_app_def MAX_PER_MINUTE_def
        WINDOW_MS_def Let_def)
  have c2: "taps (fst (snd (snd (handlePress 1000 1000 initial_app offline)))) =
      filter (\<lambda>t. 1000 - t < WINDOW_MS) (taps initial_app) @ [1000]"
    using h1 rate_window_frame [where s = initial_app and e = offline
        and s' = initial_app and e' = offline and t = "[]"
        and ts = "[]" and l = None and b = False and ?now1.0 = 1000 and ?now2.0 = 1000]
    by blast
  have c3: "set (taps (fst (snd (snd
     (handlePress 5000 5000 (initial_app\<lparr>taps := [0, 1000, 2000, 3000, 4000]\<rparr>) offline)))))
     \<subseteq> set (taps (initial_app\<lparr>taps := [0, 1000, 2000, 3000, 4000]\<rparr>))"
    using h2 rate_window_frame [where s = "initial_app\<lparr>taps := [0, 1000, 2000, 3000, 4000]\<rparr>"
        and e = offline and s' = initial_app and e' = offline and t = "[]"
        and ts = "[]" and l = None and b = False and ?now1.0 = 5000 and ?now2.0 = 5000]
    by blast
  have r: "0 \<le> rand offline (drawn offline) \<and> rand offline (drawn offline) < 1"
    by (simp add: offline_def serving_fields)
  note il = rate_window_frame [where s = ?full and e = offline
        and s' = initial_app and e' = offline and t = "[]"
        and ts = "[0, 1000, 2000, 3000, 4000]" and l = "Some 60000" and b = True
        and ?now1.0 = 0 and ?now2.0 = 0]
  have same: "?full\<lparr>taps := [0, 1000, 2000, 3000, 4000], limitUntil := Some 60000,
                 showLimit := True\<rparr> = ?full"
    by simp
  have c4: "fst (initialLoad ?full offline) = None"
    using il r unfolding same by blast
  have c5: "fetched (snd (snd (initialLoad ?full offline))) = fetched (snd (fetchWithRetry offline))"
    using il unfolding same by blast
  have c6: "fact (fst (snd (initialLoad ?full offline))) =
      toLowerCase (FALLBACK ! nat \<lfloor>rand offline (drawn offline) * real (length FALLBACK)\<rfloor>)"
    using il r fetchWithRetry_offline unfolding same by blast
  have c7: "taps (fst (snd (initialLoad ?full offline))) = taps ?full"
    using il by blast
  from c2 have c2': "taps (fst (snd (snd (handlePress 1000 1000 initial_app offline)))) = [1000]"
    by (simp add: initial_app_def)
  from c3 have c3': "set (taps (fst (snd (snd
     (handlePress 5000 5000 (initial_app\<lparr>taps := [0, 1000, 2000, 3000, 4000]\<rparr>) offline)))))
     \<subseteq> {0, 1000, 2000, 3000, 4000}"
    by simp
  from c5 have c5': "fetched (snd (snd (initialLoad ?full offline))) = 3"
    by (simp add: fetchWithRetry_exhausted offline_fails) (simp add: offline_def serving_fields)
  from c6 have c6': "fact (fst (snd (initialLoad ?full offline))) = ''sharks existed before trees.''"
    by (simp add: offline_def serving_fields FALLBACK_def toLowerCase_def)
  from c7 have c7': "taps (fst (snd (initialLoad ?full offline))) = [0, 1000, 2000, 3000, 4000]"
    by simp
  from p h1 h2 c2' c3' c4 c5' c6' c7' show ?thesis by blast
qed

subsection \<open>Sessions that show a fact twice\<close>


lemma twice_first:
  "getNextFact initial_app twice =
     (None, initial_app\<lparr>fact := ''a''\<rparr>, twice\<lparr>fetched := 1\<rparr>)"
  unfolding twice_def by (simp add: run_defs)

lemma twice_refill:
  "getNextFact_refill initial_app twice =
     Some (None, initial_app\<lparr>fact := ''a'', cache := [''a''], seen := {''a''}\<rparr>,
           twice\<lparr>fetched := 5, slept := [400, 800, 1600]\<rparr>)"
  unfolding twice_def by (simp add: run_defs)

lemma twice_second:
  "getNextFact (initial_app\<lparr>fact := ''a'', cache := [''a''], seen := {''a''}\<rparr>)
     (twice\<lparr>fetched := 5, slept := [400, 800, 1600]\<rparr>) =
     (None, initial_app\<lparr>fact := ''a'', cache := [], seen := {''a''}\<rparr>,
      twice\<lparr>fetched := 5, slept := [400, 800, 1600]\<rparr>)"
  unfolding twice_def by (simp add: run_defs)

lemma late_first:
  "getNextFact_refill initial_app late =
     Some (None, initial_app\<lparr>fact := ''sharks existed before trees.''\<rparr>,
           late\<lparr>fetched := 6, drawn := 1, slept := [400, 800, 1600, 400, 800, 1600]\<rparr>)"
  unfolding late_def by (simp add: run_defs)

lemma late_second:
  "getNextFact_refill (initial_app\<lparr>fact := ''sharks existed before trees.''\<rparr>)
     (late\<lparr>fetched := 6, drawn := 1, slept := [400, 800, 1600, 400, 800, 1600]\<rparr>) =
     Some (None,
           initial_app\<lparr>fact := ''sharks existed before trees.'',
                        cache := [''sharks existed before trees.''],
                        seen := {''sharks existed before trees.''}\<rparr>,
           late\<lparr>fetched := 11, drawn := 1,
                  slept := [400, 800, 1600, 400, 800, 1600, 400, 800, 1600]\<rparr>)"
  unfolding late_def by (simp add: run_defs)


lemma twice_prime:
  "primeCache_with fetchWithRetry (initial_app\<lparr>fact := ''a''\<rparr>) (twice\<lparr>fetched := 1\<rparr>) =
     Some (initial_app\<lparr>fact := ''a'', cache := [''a''], seen := {''a''}\<rparr>,
           twice\<lparr>fetched := 5, slept := [400, 800, 1600]\<rparr>)"
  unfolding twice_def by (simp add: run_defs)

lemma late_third:
  "getNextFact
     (initial_app\<lparr>fact := ''sharks existed before trees.'',
                  cache := [''sharks existed before trees.''],
                  seen := {''sharks existed before trees.''}\<rparr>)
     (late\<lparr>fetched := 11, drawn := 1,
            slept := [400, 800, 1600, 400, 800, 1600, 400, 800, 1600]\<rparr>) =
     (None,
      initial_app\<lparr>fact := ''sharks existed before trees.'', cache := [],
                   seen := {''sharks existed before trees.''}\<rparr>,
      late\<lparr>fetched := 11, drawn := 1,
             slept := [400, 800, 1600, 400, 800, 1600, 400, 800, 1600]\<rparr>)"
  unfolding late_def by (simp add: run_defs)

lemma enqueue_effect:
  "seen (enqueue t s) = (if t \<in> seen s then seen s else insert t (seen s))"
  "cache (enqueue t s) = (if t \<in> seen s then cache s else cache s @ [t])"
  by (simp_all add: enqueue_def)

text \<open>
  Claim C10. \<^verbatim>\<open>getNextFact\<close> and the initial load leave the seen-set as it was; the
  guarded push adds a text to the seen-set exactly when it pushes it; and a refill that
  returns has added to the seen-set exactly the texts it pushed. So a fact shown from a
  direct fetch (network \<open>twice\<close>) or from the fallback list (network \<open>late\<close>) is not in
  the seen-set, is pushed by a later refill that fetches it, and is shown again.
\<close>

theorem seen_only_on_push:
  "seen (fst (snd (getNextFact s e))) = seen s \<and>
   seen (fst (snd (initialLoad s e))) = seen s \<and>
   seen (enqueue t s) = (if t \<in> seen s then seen s else insert t (seen s)) \<and>
   cache (enqueue t s) = (if t \<in> seen s then cache s else cache s @ [t]) \<and>
   (primeCache_with fetcher s e = Some (s', e') \<longrightarrow>
      take (length (cache s)) (cache s') = cache s \<and>
      seen s' = seen s \<union> set (drop (length (cache s)) (cache s'))) \<and>
   getNextFact initial_app twice =
     (None, initial_app\<lparr>fact := ''a''\<rparr>, twice\<lparr>fetched := 1\<rparr>) \<and>
   getNextFact_refill initial_app twice =
     Some (None, initial_app\<lparr>fact := ''a'', cache := [''a''], seen := {''a''}\<rparr>,
           twice\<lparr>fetched := 5, slept := [400, 800, 1600]\<rparr>) \<and>
   getNextFact (initial_app\<lparr>fact := ''a'', cache := [''a''], seen := {''a''}\<rparr>)
     (twice\<lparr>fetched := 5, slept := [400, 800, 1600]\<rparr>) =
     (None, initial_app\<lparr>fact := ''a'', cache := [], seen := {''a''}\<rparr>,
      twice\<lparr>fetched := 5, slept := [400, 800, 1600]\<rparr>) \<and>
   getNextFact_refill initial_app late =
     Some (None, initial_app\<lparr>fact := ''sharks existed before trees.''\<rparr>,
           late\<lparr>fetched := 6, drawn := 1, slept := [400, 800, 1600, 400, 800, 1600]\<rparr>) \<and>
   getNextFact_refill (initial_app\<lparr>fact := ''sharks existed before trees.''\<rparr>)
     (late\<lparr>fetched := 6, drawn := 1, slept := [400, 800, 1600, 400, 800, 1600]\<rparr>) =
     Some (None,
           initial_app\<lparr>fact := ''sharks existed before trees.'',
                        cache := [''sharks existed before trees.''],
                        seen := {''sharks existed before trees.''}\<rparr>,
           late\<lparr>fetched := 11, drawn := 1,
                  slept := [400, 800, 1600, 400, 800, 1600, 400, 800, 1600]\<rparr>) \<and>
   getNextFact
     (initial_app\<lparr>fact := ''sharks existed before trees.'',
                  cache := [''sharks existed before trees.''],
                  seen := {''sharks existed before trees.''}\<rparr>)
     (late\<lparr>fetched := 11, drawn := 1,
            slept := [400, 800, 1600, 400, 800, 1600, 400, 800, 1600]\<rparr>) =
     (None,
      initial_app\<lparr>fact := ''sharks existed before trees.'', cache := [],
                   seen := {''sharks existed before trees.''}\<rparr>,
      late\<lparr>fetched := 11, drawn := 1,
             slept := [400, 800, 1600, 400, 800, 1600, 400, 800, 1600]\<rparr>)"
proof -
  have pc: "primeCache_with fetcher s e = Some (s', e') \<longrightarrow>
      take (length (cache s)) (cache s') = cache s \<and>
      seen s' = seen s \<union> set (drop (length (cache s)) (cache s'))"
    using primeCache_with_seen [of fetcher s e s' e'] by blast
  have g: "seen (fst (snd (getNextFact s e))) = seen s"
    by (rule getNextFact_cache)
  have i: "seen (fst (snd (initialLoad s e))) = seen s"
    by (rule initialLoad_frame)
  note sc = twice_first twice_refill twice_second late_first late_second late_third
  show ?thesis
    by (intro conjI g i pc enqueue_effect sc)
qed

theorem seen_only_on_push_witness:
  "primeCache_with fetchWithRetry (initial_app\<lparr>fact := ''a''\<rparr>) (twice\<lparr>fetched := 1\<rparr>) =
     Some (initial_app\<lparr>fact := ''a'', cache := [''a''], seen := {''a''}\<rparr>,
           twice\<lparr>fetched := 5, slept := [400, 800, 1600]\<rparr>) \<and>
   seen (initial_app\<lparr>fact := ''a'', cache := [''a''], seen := {''a''}\<rparr>) =
     seen (initial_app\<lparr>fact := ''a''\<rparr>) \<union>
     set (drop (length (cache (initial_app\<lparr>fact := ''a''\<rparr>)))
            (cache (initial_app\<lparr>fact := ''a'', cache := [''a''], seen := {''a''}\<rparr>)))"
  using twice_prime
    seen_only_on_push [where fetcher = fetchWithRetry and s = "initial_app\<lparr>fact := ''a''\<rparr>"
      and e = "twice\<lparr>fetched := 1\<rparr>"
      and s' = "initial_app\<lparr>fact := ''a'', cache := [''a''], seen := {''a''}\<rparr>"
      and e' = "twice\<lparr>fetched := 5, slept := [400, 800, 1600]\<rparr>" and t = "[]"]
  by blast

end
